theory Spec2Isabelle
  imports Main "HOL-Library.Sublist"
begin

section \<open>Failures and formatting\<close>

text \<open>
  The harness has two ways of not returning: \<^verbatim>\<open>panic(msg)\<close> and \<^verbatim>\<open>t.Fatalf(...)\<close>, which
  logs the message and stops the calling test. Both carry the formatted message.
\<close>

datatype failure = Panic string | Fatalf string

text \<open>\<^verbatim>\<open>strconv.Itoa\<close>, which is also what the verb \<^verbatim>\<open>%d\<close> prints for an \<^verbatim>\<open>int\<close>.\<close>

definition digit :: "nat \<Rightarrow> char" where
  "digit d = ''0123456789'' ! (d mod 10)"

fun utoa :: "nat \<Rightarrow> string" where
  "utoa n = (if n < 10 then [digit n] else utoa (n div 10) @ [digit (n mod 10)])"

declare utoa.simps [simp del]

definition Itoa :: "int \<Rightarrow> string" where
  "Itoa i = (if i < 0 then CHR ''-'' # utoa (nat (- i)) else utoa (nat i))"

section \<open>Other\<close>

text \<open>
  \<^verbatim>\<open>for j := range rafts { if i != j { return j } }; return -1\<close>.
  The loop runs over the indices of the slice; the elements are not read.
\<close>

fun Other_range :: "(nat \<times> 'r) list \<Rightarrow> int \<Rightarrow> int" where
  "Other_range [] i = - 1"
| "Other_range ((j, r) # rest) i = (if i \<noteq> int j then int j else Other_range rest i)"

definition Other :: "'r list \<Rightarrow> int \<Rightarrow> int" where
  "Other rafts i = Other_range (enumerate 0 rafts) i"

section \<open>The consensus library, as far as the harness uses it\<close>

text \<open>
  The harness is a client of a consensus library that is not part of this repository. Its
  objects are modelled by the state the harness can observe: an in-memory transport has a
  local address and a registry from peer addresses to transport handles; a peer store holds
  a slice of addresses, and its two operations may fail. Objects live in a store and are
  named by references, because the harness keeps the same transport and the same peer store
  in a node and in the slices it wires, and because two slices may share one backing array.
\<close>

type_synonym ref = nat

type_synonym duration = int

text \<open>\<^verbatim>\<open>time.Duration\<close> counts nanoseconds.\<close>

definition Millisecond :: duration where
  "Millisecond = 1000000"

record raft_config =
  HeartbeatTimeout :: duration
  ElectionTimeout :: duration
  CommitTimeout :: duration
  LeaderLeaseTimeout :: duration
  SnapshotInterval :: duration
  SnapshotThreshold :: nat
  TrailingLogs :: nat
  Logger :: "string option"

text \<open>
  The dynamic type of a \<^verbatim>\<open>LogStore\<close>/\<^verbatim>\<open>StableStore\<close> value and of a \<^verbatim>\<open>SnapshotStore\<close>
  value: which implementation stands behind the interface. The discard store keeps no snapshot
  at all; the in-memory one keeps snapshots in memory; the file one keeps them on disk.
\<close>

datatype store = InmemStore | FileStore string

datatype snapshot_store = DiscardSnapshotStore | InmemSnapshotStore | FileSnapshotStore string

record InmemTransport =
  localAddr :: string
  peers :: "string \<rightharpoonup> ref"

text \<open>
  A \<^verbatim>\<open>[]string\<close> value: the backing array it points into, the offset of its first element
  there, its length and its capacity. The \<^verbatim>\<open>nil\<close> slice has length and capacity 0, and its
  array is never read.
\<close>

record slice =
  slice_array :: ref
  slice_off :: nat
  slice_len :: nat
  slice_cap :: nat

definition nil_slice :: slice where
  "nil_slice = \<lparr>slice_array = 0, slice_off = 0, slice_len = 0, slice_cap = 0\<rparr>"

text \<open>The elements of a slice, read from the backing arrays.\<close>

definition slice_elems :: "(ref \<Rightarrow> string list) \<Rightarrow> slice \<Rightarrow> string list" where
  "slice_elems arrs sl = take (slice_len sl) (drop (slice_off sl) (arrs (slice_array sl)))"

text \<open>
  A \<^verbatim>\<open>PeerStore\<close>: \<^verbatim>\<open>Peers()\<close> returns the slice the store holds (the same slice, not a
  copy of it) or an error, \<^verbatim>\<open>SetPeers(p)\<close> makes the store hold the slice \<^verbatim>\<open>p\<close> or returns an
  error. \<^verbatim>\<open>&raft.StaticPeers{}\<close> is the store that holds the \<^verbatim>\<open>nil\<close> slice and whose operations
  never fail.
\<close>

record PeerStore =
  peers_slice :: slice
  peers_error :: "string option"
  set_peers_error :: "string option"

definition StaticPeers :: PeerStore where
  "StaticPeers = \<lparr>peers_slice = nil_slice, peers_error = None, set_peers_error = None\<rparr>"

definition PeerStore_Peers :: "PeerStore \<Rightarrow> string + slice" where
  "PeerStore_Peers s = (case peers_error s of Some err \<Rightarrow> Inl err | None \<Rightarrow> Inr (peers_slice s))"

definition PeerStore_SetPeers :: "slice \<Rightarrow> PeerStore \<Rightarrow> string + PeerStore" where
  "PeerStore_SetPeers p s =
     (case set_peers_error s of Some err \<Rightarrow> Inl err | None \<Rightarrow> Inr (s\<lparr>peers_slice := p\<rparr>))"

section \<open>Nodes and the cluster\<close>

record node =
  Config :: raft_config
  Logs :: store
  Stable :: store
  Snapshots :: snapshot_store
  Peers :: ref
  Transport :: ref

text \<open>
  The cluster (\<^verbatim>\<open>nodes map[int]*node\<close>) together with the objects its nodes point to: the
  transports, the peer stores and the backing arrays of the peer stores' slices. This is what a
  knob receives and may change. \<open>next_ref\<close> is the next reference the allocator hands out, and
  \<open>spare\<close> is how many elements beyond the one needed the runtime adds when \<^verbatim>\<open>append\<close> has to
  grow a slice of the given capacity.
\<close>

record state =
  nodes :: "int \<rightharpoonup> node"
  transports :: "ref \<Rightarrow> InmemTransport"
  stores :: "ref \<Rightarrow> PeerStore"
  arrays :: "ref \<Rightarrow> string list"
  spare :: "nat \<Rightarrow> nat"
  next_ref :: ref

text \<open>
  Nothing allocated yet. The runtime doubles the capacity of a small slice that is full; no
  property below depends on the amount.
\<close>

definition empty_state :: state where
  "empty_state =
     \<lparr>nodes = Map.empty,
      transports = (\<lambda>r. \<lparr>localAddr = [], peers = Map.empty\<rparr>),
      stores = (\<lambda>r. StaticPeers),
      arrays = (\<lambda>a. []),
      spare = (\<lambda>c. c - 1),
      next_ref = 0\<rparr>"

definition new_transport :: "InmemTransport \<Rightarrow> state \<Rightarrow> ref \<times> state" where
  "new_transport t st =
     (next_ref st, st\<lparr>transports := (transports st)(next_ref st := t), next_ref := Suc (next_ref st)\<rparr>)"

definition new_store :: "PeerStore \<Rightarrow> state \<Rightarrow> ref \<times> state" where
  "new_store s st =
     (next_ref st, st\<lparr>stores := (stores st)(next_ref st := s), next_ref := Suc (next_ref st)\<rparr>)"

text \<open>
  The library's entry points the harness calls. They are parameters of the model:
  \<^verbatim>\<open>raft.DefaultConfig()\<close>, \<^verbatim>\<open>raft.NewInmemTransport(addr)\<close> (it returns an address and the
  transport), \<^verbatim>\<open>raft.NewRaft(config, fsm, logs, stable, snaps, peers, trans)\<close> (an error or a
  handle; it reads the objects behind the references from the current state), and the error,
  if any, that the future of a handle's \<^verbatim>\<open>Shutdown()\<close> reports.
\<close>

record ('f, 'r) raftlib =
  DefaultConfig :: raft_config
  NewInmemTransport :: "string \<Rightarrow> string \<times> InmemTransport"
  NewRaft :: "raft_config \<Rightarrow> 'f \<Rightarrow> store \<Rightarrow> store \<Rightarrow> snapshot_store \<Rightarrow> ref \<Rightarrow> ref \<Rightarrow> state
                \<Rightarrow> string + 'r"
  ShutdownError :: "'r \<Rightarrow> string option"

text \<open>
  Create default dependencies for a single raft node. The logger writes to the test's log with
  the prefix \<^verbatim>\<open>addr + ": "\<close>; of the logger the model keeps the prefix.
\<close>

definition newNode :: "('f, 'r) raftlib \<Rightarrow> string \<Rightarrow> state \<Rightarrow> node \<times> state" where
  "newNode lib addr st =
     (let (transport, st) = new_transport (snd (NewInmemTransport lib addr)) st;
          config = DefaultConfig lib;
          config = config\<lparr>Logger := Some (addr @ '': '')\<rparr>;
          config = config\<lparr>HeartbeatTimeout := 50 * Millisecond\<rparr>;
          config = config\<lparr>ElectionTimeout := 50 * Millisecond\<rparr>;
          config = config\<lparr>LeaderLeaseTimeout := 50 * Millisecond\<rparr>;
          config = config\<lparr>CommitTimeout := 25 * Millisecond\<rparr>;
          (peers_ref, st) = new_store StaticPeers st;
          options = \<lparr>Config = config,
                     Logs = InmemStore,
                     Stable = InmemStore,
                     Snapshots = DiscardSnapshotStore,
                     Peers = peers_ref,
                     Transport = transport\<rparr>
      in (options, st))"

text \<open>Convenience around \<^verbatim>\<open>raft.NewRaft\<close>, using the given dependencies.\<close>

definition newRaft :: "('f, 'r) raftlib \<Rightarrow> 'f \<Rightarrow> node \<Rightarrow> state \<Rightarrow> string + 'r" where
  "newRaft lib fsm node st =
     NewRaft lib (Config node) fsm (Logs node) (Stable node) (Snapshots node) (Peers node)
       (Transport node) st"

section \<open>Wiring\<close>

definition LocalAddr :: "ref \<Rightarrow> state \<Rightarrow> string" where
  "LocalAddr t st = localAddr (transports st t)"

text \<open>\<^verbatim>\<open>t.Connect(peer, other)\<close> stores \<^verbatim>\<open>other\<close> under \<^verbatim>\<open>peer\<close> in the registry of \<^verbatim>\<open>t\<close>.\<close>

definition Connect :: "ref \<Rightarrow> string \<Rightarrow> ref \<Rightarrow> state \<Rightarrow> state" where
  "Connect t peer other st =
     st\<lparr>transports := (transports st)(t := (transports st t)\<lparr>peers := (peers (transports st t))(peer \<mapsto> other)\<rparr>)\<rparr>"

text \<open>The body of the inner loop of \<^verbatim>\<open>connectLoobackTransports\<close> when \<^verbatim>\<open>i != j\<close>.\<close>

definition connect_pair :: "ref \<Rightarrow> ref \<Rightarrow> state \<Rightarrow> state" where
  "connect_pair transport1 transport2 st =
     (let st = Connect transport1 (LocalAddr transport2 st) transport2 st
      in Connect transport2 (LocalAddr transport1 st) transport1 st)"

text \<open>Connect all the given loopback transports to each other.\<close>

definition connectLoobackTransports :: "ref list \<Rightarrow> state \<Rightarrow> state" where
  "connectLoobackTransports ts st =
     fold (\<lambda>(i, transport1).
            fold (\<lambda>(j, transport2) st.
                   if i \<noteq> j then connect_pair transport1 transport2 st else st)
              (enumerate 0 ts))
       (enumerate 0 ts) st"

text \<open>A \<^verbatim>\<open>range\<close> loop whose body may panic: the first failure ends it.\<close>

fun forE :: "'a list \<Rightarrow> ('a \<Rightarrow> 's \<Rightarrow> failure + 's) \<Rightarrow> 's \<Rightarrow> failure + 's" where
  "forE [] body s = Inr s"
| "forE (x # xs) body s = (case body x s of Inl e \<Rightarrow> Inl e | Inr s' \<Rightarrow> forE xs body s')"

text \<open>
  The built-in \<^verbatim>\<open>append(s, x)\<close>. When the slice has room (\<^verbatim>\<open>len(s) < cap(s)\<close>) the element is
  written into the backing array right after the slice's last element, and the result is the
  same array with the length one more: whoever else points into that array sees the write.
  Otherwise a new array is allocated that holds the elements of the slice, then \<^verbatim>\<open>x\<close>, then
  the spare elements (empty strings), and the result points to it.
\<close>

definition go_append :: "slice \<Rightarrow> string \<Rightarrow> state \<Rightarrow> slice \<times> state" where
  "go_append sl x st =
     (if slice_len sl < slice_cap sl
      then (sl\<lparr>slice_len := Suc (slice_len sl)\<rparr>,
            st\<lparr>arrays := (arrays st)
                  (slice_array sl := (arrays st (slice_array sl))[slice_off sl + slice_len sl := x])\<rparr>)
      else (\<lparr>slice_array = next_ref st, slice_off = 0, slice_len = Suc (slice_len sl),
             slice_cap = Suc (slice_len sl) + spare st (slice_cap sl)\<rparr>,
            st\<lparr>arrays := (arrays st)
                  (next_ref st := slice_elems (arrays st) sl @ [x]
                                   @ replicate (spare st (slice_cap sl)) []),
               next_ref := Suc (next_ref st)\<rparr>))"

text \<open>
  The body of the inner loop of \<^verbatim>\<open>populatePeerStores\<close> when \<^verbatim>\<open>i != j\<close>: the slice that
  \<^verbatim>\<open>store.Peers()\<close> returns is appended to and handed back to \<^verbatim>\<open>store.SetPeers\<close>.
\<close>

definition populate_step :: "nat \<Rightarrow> ref \<Rightarrow> ref \<Rightarrow> state \<Rightarrow> failure + state" where
  "populate_step i store transport st =
     (case PeerStore_Peers (stores st store) of
        Inl err \<Rightarrow> Inl (Panic (''failed to get peers for node '' @ Itoa (int i) @ '': '' @ err))
      | Inr addrs \<Rightarrow>
          (let (addrs, st) = go_append addrs (LocalAddr transport st) st
           in case PeerStore_SetPeers addrs (stores st store) of
                Inl err \<Rightarrow>
                  Inl (Panic (''failed to set peers for node '' @ Itoa (int i) @ '': '' @ err))
              | Inr s \<Rightarrow> Inr (st\<lparr>stores := (stores st)(store := s)\<rparr>)))"

text \<open>Populate each node's peer store with the addresses of the other nodes.\<close>

definition populatePeerStores :: "ref list \<Rightarrow> ref list \<Rightarrow> state \<Rightarrow> failure + state" where
  "populatePeerStores ss ts st =
     (if length ss \<noteq> length ts then Inl (Panic ''peer stores and tranports length mismatch'')
      else forE (enumerate 0 ss)
             (\<lambda>(i, store).
                forE (enumerate 0 ts)
                  (\<lambda>(j, transport) st.
                     if i = j then Inr st else populate_step i store transport st))
             st)"

section \<open>Shutdown\<close>

text \<open>
  What the harness does to its collaborators, in the order it does it: the calls of a knob's
  \<^verbatim>\<open>init\<close> and \<^verbatim>\<open>cleanup\<close> (by the knob's position), the creation of an engine instance (by
  node index), the call of a handle's \<^verbatim>\<open>Shutdown()\<close> and the call of \<^verbatim>\<open>Error()\<close> on a
  shutdown future (by index in the slice).
\<close>

datatype event =
  KnobInit nat
| EngineStarted nat
| ShutdownRequested nat
| FutureWaited nat
| KnobCleanup nat

text \<open>
  First loop of \<^verbatim>\<open>Shutdown\<close>: \<^verbatim>\<open>futures[i] = r.Shutdown()\<close>. A future is modelled by the error
  its \<^verbatim>\<open>Error()\<close> returns (\<open>None\<close> for \<^verbatim>\<open>nil\<close>). The slice is filled from index 0 upwards, so
  it is built by appending.
\<close>

definition request_shutdowns ::
  "('f, 'r) raftlib \<Rightarrow> 'r list \<Rightarrow> event list \<Rightarrow> string option list \<times> event list" where
  "request_shutdowns lib rafts tr =
     fold (\<lambda>(i, r) (futures, tr). (futures @ [ShutdownError lib r], tr @ [ShutdownRequested i]))
       (enumerate 0 rafts) ([], tr)"

text \<open>Second loop of \<^verbatim>\<open>Shutdown\<close>: the first future with an error fails the test.\<close>

fun await_futures ::
  "(nat \<times> string option) list \<Rightarrow> event list \<Rightarrow> (failure + unit) \<times> event list" where
  "await_futures [] tr = (Inr (), tr)"
| "await_futures ((i, future) # rest) tr =
     (case future of
        Some err \<Rightarrow>
          (Inl (Fatalf (''failed to shutdown raft node '' @ Itoa (int i) @ '': '' @ err)),
           tr @ [FutureWaited i])
      | None \<Rightarrow> await_futures rest (tr @ [FutureWaited i]))"

text \<open>
  Shutdown all the given raft nodes and fail the test if any of them errors out while doing so.
\<close>

definition Shutdown ::
  "('f, 'r) raftlib \<Rightarrow> 'r list \<Rightarrow> event list \<Rightarrow> (failure + unit) \<times> event list" where
  "Shutdown lib rafts tr =
     (let (futures, tr) = request_shutdowns lib rafts tr
      in await_futures (enumerate 0 futures) tr)"

section \<open>Cluster\<close>

text \<open>
  A knob is the pair of its two methods; neither returns a value, and both receive the cluster.
\<close>

record knob =
  init :: "state \<Rightarrow> state"
  cleanup :: "state \<Rightarrow> state"

text \<open>
  The first loop of \<^verbatim>\<open>Cluster\<close>: node \<^verbatim>\<open>i\<close> is built for the address \<^verbatim>\<open>strconv.Itoa(i)\<close> and
  stored in the map; its transport and its peer store are put at index \<^verbatim>\<open>i\<close> of the two slices
  (filled from index 0 upwards, so built by appending).
\<close>

definition add_node ::
  "('f, 'r) raftlib \<Rightarrow> nat \<Rightarrow> state \<times> ref list \<times> ref list \<Rightarrow> state \<times> ref list \<times> ref list" where
  "add_node lib i = (\<lambda>(st, ss, ts).
     (let (nd, st) = newNode lib (Itoa (int i)) st;
          st = st\<lparr>nodes := (nodes st)(int i \<mapsto> nd)\<rparr>
      in (st, ss @ [Peers nd], ts @ [Transport nd])))"

definition init_knobs :: "knob list \<Rightarrow> state \<times> event list \<Rightarrow> state \<times> event list" where
  "init_knobs knobs =
     fold (\<lambda>(j, knob) (st, tr). (init knob st, tr @ [KnobInit j])) (enumerate 0 knobs)"

definition cleanup_knobs :: "knob list \<Rightarrow> state \<times> event list \<Rightarrow> state \<times> event list" where
  "cleanup_knobs knobs =
     fold (\<lambda>(j, knob) (st, tr). (cleanup knob st, tr @ [KnobCleanup j])) (enumerate 0 knobs)"

text \<open>
  The loop \<^verbatim>\<open>for i := range fsms\<close>. \<^verbatim>\<open>cluster.nodes[i]\<close> is \<^verbatim>\<open>nil\<close> when the map has no entry
  for \<^verbatim>\<open>i\<close>, and \<^verbatim>\<open>newRaft\<close> then panics on \<^verbatim>\<open>node.Config\<close>; an error of \<^verbatim>\<open>newRaft\<close> fails the
  test. The slice of handles is filled from index 0 upwards.
\<close>

fun start_rafts ::
  "('f, 'r) raftlib \<Rightarrow> (nat \<times> 'f) list \<Rightarrow> state \<Rightarrow> 'r list \<times> event list
     \<Rightarrow> (failure + 'r list) \<times> event list" where
  "start_rafts lib [] st (rafts, tr) = (Inr rafts, tr)"
| "start_rafts lib ((i, fsm) # rest) st (rafts, tr) =
     (case nodes st (int i) of
        None \<Rightarrow>
          (Inl (Panic ''runtime error: invalid memory address or nil pointer dereference''), tr)
      | Some nd \<Rightarrow>
          (case newRaft lib fsm nd st of
             Inl err \<Rightarrow>
               (Inl (Fatalf (''failed to start test raft node '' @ Itoa (int i) @ '': '' @ err)),
                tr)
           | Inr raft \<Rightarrow> start_rafts lib rest st (rafts @ [raft], tr @ [EngineStarted i])))"

text \<open>The closure \<^verbatim>\<open>cleanup\<close> that \<^verbatim>\<open>Cluster\<close> returns; it runs on the state it is called in.\<close>

definition Cluster_cleanup ::
  "('f, 'r) raftlib \<Rightarrow> 'r list \<Rightarrow> knob list \<Rightarrow> state \<times> event list
     \<Rightarrow> (failure + unit) \<times> state \<times> event list" where
  "Cluster_cleanup lib rafts knobs = (\<lambda>(st, tr).
     (case Shutdown lib rafts tr of
        (Inl e, tr) \<Rightarrow> (Inl e, st, tr)
      | (Inr u, tr) \<Rightarrow> (Inr (), cleanup_knobs knobs (st, tr))))"

text \<open>
  Cluster creates n raft nodes, one for each of the given FSMs. The result is the outcome
  (a failure, or the handles and the cleanup closure), the state of the cluster and the
  events so far.
\<close>

definition Cluster ::
  "('f, 'r) raftlib \<Rightarrow> 'f list \<Rightarrow> knob list
     \<Rightarrow> (failure + 'r list \<times> (state \<times> event list \<Rightarrow> (failure + unit) \<times> state \<times> event list))
        \<times> state \<times> event list" where
  "Cluster lib fsms knobs =
     (let n = length fsms;
          (st, ss, ts) = fold (add_node lib) [0..<n] (empty_state, [], []);
          st = connectLoobackTransports ts st
      in case populatePeerStores ss ts st of
           Inl e \<Rightarrow> (Inl e, st, [])
         | Inr st \<Rightarrow>
             (let (st, tr) = init_knobs knobs (st, [])
              in case start_rafts lib (enumerate 0 fsms) st ([], tr) of
                   (Inl e, tr) \<Rightarrow> (Inl e, st, tr)
                 | (Inr rafts, tr) \<Rightarrow> (Inr (rafts, Cluster_cleanup lib rafts knobs), st, tr)))"

section \<open>Vocabulary of the properties\<close>

text \<open>A peer store whose two operations never fail.\<close>

definition never_errors :: "PeerStore \<Rightarrow> bool" where
  "never_errors s = (peers_error s = None \<and> set_peers_error s = None)"

text \<open>The addresses a peer store holds: the elements of its slice.\<close>

definition store_peers :: "state \<Rightarrow> ref \<Rightarrow> string list" where
  "store_peers st s = slice_elems (arrays st) (peers_slice (stores st s))"

text \<open>
  A slice as the language makes them: at most as long as its capacity and, when it has
  capacity, lying within an array that has been allocated.
\<close>

definition wf_slice :: "state \<Rightarrow> slice \<Rightarrow> bool" where
  "wf_slice st sl =
     (slice_len sl \<le> slice_cap sl
      \<and> (0 < slice_cap sl \<longrightarrow>
           slice_array sl < next_ref st
           \<and> slice_off sl + slice_cap sl \<le> length (arrays st (slice_array sl))))"

text \<open>
  The peer stores of a slice share no storage: their slices are as the language makes them,
  and no two different stores whose slices have capacity point into the same backing array.
\<close>

definition unshared :: "ref list \<Rightarrow> state \<Rightarrow> bool" where
  "unshared ss st =
     ((\<forall>s \<in> set ss. wf_slice st (peers_slice (stores st s)))
      \<and> (\<forall>s \<in> set ss. \<forall>s' \<in> set ss.
            s \<noteq> s' \<and> 0 < slice_cap (peers_slice (stores st s))
              \<and> 0 < slice_cap (peers_slice (stores st s')) \<longrightarrow>
            slice_array (peers_slice (stores st s)) \<noteq> slice_array (peers_slice (stores st s'))))"

text \<open>The local addresses of all transports of a slice but the one at index \<open>i\<close>, in slice order.\<close>

definition peer_addrs :: "(ref \<Rightarrow> InmemTransport) \<Rightarrow> ref list \<Rightarrow> nat \<Rightarrow> string list" where
  "peer_addrs tr ts i = map (\<lambda>j. localAddr (tr (ts ! j))) (filter (\<lambda>j. j \<noteq> i) [0..<length ts])"

text \<open>Transport \<open>t\<close> has the address of \<open>other\<close> registered with the handle \<open>other\<close>.\<close>

definition registered :: "ref \<Rightarrow> ref \<Rightarrow> state \<Rightarrow> bool" where
  "registered t other st = (peers (transports st t) (LocalAddr other st) = Some other)"

text \<open>Different transports of the slice have different local addresses.\<close>

definition distinct_addrs :: "ref list \<Rightarrow> state \<Rightarrow> bool" where
  "distinct_addrs ts st = inj_on (\<lambda>t. LocalAddr t st) (set ts)"

text \<open>The inner loop of \<^verbatim>\<open>connectLoobackTransports\<close> for one \<^verbatim>\<open>transport1\<close>.\<close>

definition connect_row :: "ref list \<Rightarrow> nat \<Rightarrow> ref \<Rightarrow> state \<Rightarrow> state" where
  "connect_row ts i transport1 =
     fold (\<lambda>(j, transport2) st. if i \<noteq> j then connect_pair transport1 transport2 st else st)
       (enumerate 0 ts)"

text \<open>
  The cluster as \<^verbatim>\<open>Cluster\<close> has built it before it applies the knobs: \<open>n\<close> nodes created,
  their transports connected and their peer stores populated.
\<close>

definition wired :: "('f, 'r) raftlib \<Rightarrow> nat \<Rightarrow> state" where
  "wired lib n =
     (let (st, ss, ts) = fold (add_node lib) [0..<n] (empty_state, [], []);
          st = connectLoobackTransports ts st
      in case populatePeerStores ss ts st of Inl e \<Rightarrow> st | Inr st \<Rightarrow> st)"

text \<open>The knobs' \<^verbatim>\<open>init\<close>, and their \<^verbatim>\<open>cleanup\<close>, applied one after the other in list order.\<close>

definition init_all :: "knob list \<Rightarrow> state \<Rightarrow> state" where
  "init_all knobs st = foldl (\<lambda>s k. init k s) st knobs"

definition cleanup_all :: "knob list \<Rightarrow> state \<Rightarrow> state" where
  "cleanup_all knobs st = foldl (\<lambda>s k. cleanup k s) st knobs"

text \<open>The node indices for which an engine instance was created, in the order of creation.\<close>

fun engines_started :: "event list \<Rightarrow> nat list" where
  "engines_started [] = []"
| "engines_started (EngineStarted i # tr) = i # engines_started tr"
| "engines_started (e # tr) = engines_started tr"

section \<open>The node-subset knob\<close>

text \<open>
  Modelled from the spec: the node-subset knob \<^verbatim>\<open>Servers(indexes...)\<close>; the file that defines
  it is missing from the sources. The spec says that it restricts which identities are wired
  into a running engine instance, and its test says that only the given nodes are connected and
  bootstrapped. The cluster has no field that marks a node as selected,
  so the knob acts on the wiring: the transport of a selected node keeps only the registrations
  for the addresses of the selected nodes and every other transport loses all of them; the peer
  store of a selected node is given a new slice with only the addresses of the selected nodes
  and every other peer store is emptied. It leaves the map of nodes as it is, and its cleanup
  does nothing.
\<close>

definition selected :: "int list \<Rightarrow> state \<Rightarrow> node list" where
  "selected idxs st = List.map_filter (nodes st) idxs"

definition set_peers :: "ref \<Rightarrow> string list \<Rightarrow> state \<Rightarrow> state" where
  "set_peers s addrs st =
     st\<lparr>arrays := (arrays st)(next_ref st := addrs),
        stores := (stores st)
          (s := (stores st s)
             \<lparr>peers_slice := \<lparr>slice_array = next_ref st, slice_off = 0,
                               slice_len = length addrs, slice_cap = length addrs\<rparr>\<rparr>),
        next_ref := Suc (next_ref st)\<rparr>"

definition Servers_init :: "int list \<Rightarrow> state \<Rightarrow> state" where
  "Servers_init idxs st =
     (let sel = selected idxs st;
          addrs = map (\<lambda>nd. LocalAddr (Transport nd) st) sel;
          st = st\<lparr>transports := (\<lambda>r. (transports st r)
                  \<lparr>peers := (if r \<in> set (map Transport sel)
                              then peers (transports st r) |` set addrs else Map.empty)\<rparr>),
               stores := (\<lambda>r. if r \<in> set (map Peers sel) then stores st r
                               else (stores st r)\<lparr>peers_slice := nil_slice\<rparr>)\<rparr>
      in fold (\<lambda>nd st. set_peers (Peers nd)
                         (filter (\<lambda>a. a \<in> set addrs) (store_peers st (Peers nd))) st)
           sel st)"

definition Servers :: "int list \<Rightarrow> knob" where
  "Servers idxs = \<lparr>init = Servers_init idxs, cleanup = (\<lambda>st. st)\<rparr>"

section \<open>Sample inputs\<close>

text \<open>Three transports with the addresses a, b and c, and peer stores that are empty.\<close>

definition sample_state :: state where
  "sample_state =
     \<lparr>nodes = Map.empty,
      transports = (\<lambda>r. \<lparr>localAddr = (if r = 0 then ''a'' else if r = 1 then ''b'' else ''c''),
                          peers = Map.empty\<rparr>),
      stores = (\<lambda>r. StaticPeers),
      arrays = (\<lambda>a. []),
      spare = (\<lambda>c. c - 1),
      next_ref = 3\<rparr>"

text \<open>A peer store whose \<^verbatim>\<open>Peers()\<close> fails.\<close>

definition failing_store :: PeerStore where
  "failing_store =
     \<lparr>peers_slice = nil_slice, peers_error = Some ''disk'', set_peers_error = None\<rparr>"

text \<open>
  Three transports with the addresses a, b and c, and three peer stores that never fail and
  hold the same empty slice of capacity 8: three \<^verbatim>\<open>&raft.StaticPeers{StaticPeers: base}\<close> with
  \<^verbatim>\<open>base := make([]string, 0, 8)\<close>.
\<close>

definition shared_array_state :: state where
  "shared_array_state =
     \<lparr>nodes = Map.empty,
      transports = (\<lambda>r. \<lparr>localAddr = (if r = 0 then ''a'' else if r = 1 then ''b'' else ''c''),
                          peers = Map.empty\<rparr>),
      stores = (\<lambda>r. \<lparr>peers_slice = \<lparr>slice_array = 0, slice_off = 0, slice_len = 0, slice_cap = 8\<rparr>,
                      peers_error = None, set_peers_error = None\<rparr>),
      arrays = (\<lambda>a. [[], [], [], [], [], [], [], []]),
      spare = (\<lambda>c. c - 1),
      next_ref = 3\<rparr>"

text \<open>Three transports that all have the address a.\<close>

definition same_addr_state :: state where
  "same_addr_state =
     \<lparr>nodes = Map.empty,
      transports = (\<lambda>r. \<lparr>localAddr = ''a'', peers = Map.empty\<rparr>),
      stores = (\<lambda>r. StaticPeers),
      arrays = (\<lambda>a. []),
      spare = (\<lambda>c. c - 1),
      next_ref = 3\<rparr>"

text \<open>A library whose engines always start and whose handle named bad fails to shut down.\<close>

definition sample_config :: raft_config where
  "sample_config =
     \<lparr>HeartbeatTimeout = 1000 * Millisecond, ElectionTimeout = 1000 * Millisecond,
      CommitTimeout = 50 * Millisecond, LeaderLeaseTimeout = 500 * Millisecond,
      SnapshotInterval = 120000 * Millisecond, SnapshotThreshold = 8192, TrailingLogs = 10240,
      Logger = None\<rparr>"

definition sample_lib :: "(string, string \<times> ref) raftlib" where
  "sample_lib =
     \<lparr>DefaultConfig = sample_config,
      NewInmemTransport = (\<lambda>addr. (addr, \<lparr>localAddr = addr, peers = Map.empty\<rparr>)),
      NewRaft = (\<lambda>config fsm logs stable snaps ps trans st. Inr (fsm, trans)),
      ShutdownError = (\<lambda>r. if fst r = ''bad'' then Some ''boom'' else None)\<rparr>"

section \<open>Properties of Other\<close>

lemma Other_range_enumerate:
  "Other_range (enumerate k xs) i =
     (if xs = [] then - 1
      else if i \<noteq> int k then int k
      else if 2 \<le> length xs then int k + 1
      else - 1)"
proof (cases xs)
  case Nil
  then show ?thesis by simp
next
  case (Cons x ys)
  then show ?thesis by (cases ys) auto
qed

lemma Other_closed_form:
  "Other rafts i =
     (if rafts = [] then - 1
      else if i \<noteq> 0 then 0
      else if 2 \<le> length rafts then 1
      else - 1)"
  unfolding Other_def Other_range_enumerate by simp

text \<open>
  C7. \<open>Other\<close> is a function of the slice and the excluded index alone (it takes and
  returns no state, so two calls with the same arguments give the same index). Its value is
  \<open>0\<close> when the slice is non-empty and \<open>i \<noteq> 0\<close>, \<open>1\<close> when \<open>i = 0\<close> and the slice
  has at least two elements, and \<open>-1\<close> otherwise; it is \<open>-1\<close> exactly when every index
  of the slice equals \<open>i\<close>; and any other value is the least index of the slice that differs
  from \<open>i\<close>.
\<close>

theorem Other_first_index_differing:
  "Other rafts i =
     (if rafts = [] then - 1
      else if i \<noteq> 0 then 0
      else if 2 \<le> length rafts then 1
      else - 1)
   \<and> (Other rafts i = - 1 \<longleftrightarrow> (\<forall>j < length rafts. int j = i))
   \<and> (Other rafts i \<noteq> - 1 \<longrightarrow>
        (\<exists>j < length rafts. Other rafts i = int j \<and> int j \<noteq> i \<and> (\<forall>k < j. int k = i)))"
proof (intro conjI)
  show "Other rafts i =
     (if rafts = [] then - 1
      else if i \<noteq> 0 then 0
      else if 2 \<le> length rafts then 1
      else - 1)"
    by (rule Other_closed_form)
next
  show "Other rafts i = - 1 \<longleftrightarrow> (\<forall>j < length rafts. int j = i)"
  proof (cases "rafts = []")
    case True
    then show ?thesis by (simp add: Other_closed_form)
  next
    case ne: False
    then have pos: "0 < length rafts" by simp
    show ?thesis
    proof (cases "i = 0")
      case i0: True
      show ?thesis
      proof (cases "2 \<le> length rafts")
        case True
        then have "1 < length rafts" by simp
        then have "\<not> (\<forall>j < length rafts. int j = i)" using i0 by force
        then show ?thesis using ne i0 True by (simp add: Other_closed_form)
      next
        case False
        with pos have "length rafts = 1" by arith
        then show ?thesis using ne i0 by (simp add: Other_closed_form)
      qed
    next
      case False
      then have "\<not> (\<forall>j < length rafts. int j = i)" using pos by force
      then show ?thesis using ne False by (simp add: Other_closed_form)
    qed
  qed
next
  show "Other rafts i \<noteq> - 1 \<longrightarrow>
        (\<exists>j < length rafts. Other rafts i = int j \<and> int j \<noteq> i \<and> (\<forall>k < j. int k = i))"
  proof
    assume nz: "Other rafts i \<noteq> - 1"
    then have ne: "rafts \<noteq> []" by (auto simp: Other_closed_form)
    show "\<exists>j < length rafts. Other rafts i = int j \<and> int j \<noteq> i \<and> (\<forall>k < j. int k = i)"
    proof (cases "i = 0")
      case True
      with nz ne have two: "2 \<le> length rafts"
        by (auto simp: Other_closed_form split: if_splits)
      have "1 < length rafts \<and> Other rafts i = int 1 \<and> int 1 \<noteq> i \<and> (\<forall>k < 1. int k = i)"
        using True ne two by (simp add: Other_closed_form)
      then show ?thesis by blast
    next
      case False
      have "0 < length rafts \<and> Other rafts i = int 0 \<and> int 0 \<noteq> i \<and> (\<forall>k < 0. int k = i)"
        using False ne by (simp add: Other_closed_form)
      then show ?thesis by blast
    qed
  qed
qed

theorem Other_first_index_differing_witness:
  "Other [''a'', ''b'', ''c''] 0 = 1
   \<and> Other [''a'', ''b'', ''c''] 2 = 0
   \<and> Other [''a''] 0 = - 1
   \<and> Other ([] :: string list) 5 = - 1
   \<and> (\<exists>j < length [''a'', ''b'', ''c'']. Other [''a'', ''b'', ''c''] 0 = int j \<and> int j \<noteq> 0)"
proof -
  have a: "Other [''a'', ''b'', ''c''] 0 = 1"
    using Other_first_index_differing [of "[''a'', ''b'', ''c'']" 0] by simp
  have b: "Other [''a'', ''b'', ''c''] 2 = 0"
    using Other_first_index_differing [of "[''a'', ''b'', ''c'']" 2] by simp
  have c: "Other [''a''] 0 = - 1"
    using Other_first_index_differing [of "[''a'']" 0] by simp
  have d: "Other ([] :: string list) 5 = - 1"
    using Other_first_index_differing [of "[] :: string list" 5] by simp
  have "Other [''a'', ''b'', ''c''] 0 \<noteq> - 1" using a by simp
  then have e: "\<exists>j < length [''a'', ''b'', ''c'']. Other [''a'', ''b'', ''c''] 0 = int j \<and> int j \<noteq> 0"
    using Other_first_index_differing [of "[''a'', ''b'', ''c'']" 0] by blast
  show ?thesis using a b c d e by blast
qed

section \<open>Properties of populatePeerStores\<close>

lemma never_errors_StaticPeers [simp]: "never_errors StaticPeers"
  by (simp add: never_errors_def StaticPeers_def)

lemma take_Suc_update_last: "n < length ys \<Longrightarrow> take (Suc n) (ys[n := x]) = take n ys @ [x]"
  by (simp add: take_Suc_conv_app_nth)

lemma slice_elems_length:
  "wf_slice st sl \<Longrightarrow> length (slice_elems (arrays st) sl) = slice_len sl"
  by (cases "0 < slice_cap sl") (auto simp: wf_slice_def slice_elems_def)

lemma go_append_frame:
  assumes "go_append sl x st = (sl', st')"
  shows "transports st' = transports st" and "nodes st' = nodes st" and "stores st' = stores st"
    and "spare st' = spare st" and "next_ref st \<le> next_ref st'"
  using assms by (auto simp: go_append_def split: if_splits)

lemma go_append_elems:
  assumes wf: "wf_slice st sl" and ap: "go_append sl x st = (sl', st')"
  shows "slice_elems (arrays st') sl' = slice_elems (arrays st) sl @ [x]"
proof (cases "slice_len sl < slice_cap sl")
  case True
  let ?arr = "arrays st (slice_array sl)"
  have b: "slice_off sl + slice_cap sl \<le> length ?arr" using wf True by (simp add: wf_slice_def)
  have sl': "sl' = sl\<lparr>slice_len := Suc (slice_len sl)\<rparr>"
    and st': "arrays st' (slice_array sl) = ?arr[slice_off sl + slice_len sl := x]"
    using ap True by (auto simp: go_append_def)
  have n: "slice_len sl < length (drop (slice_off sl) ?arr)" using b True by simp
  have "drop (slice_off sl) (?arr[slice_off sl + slice_len sl := x])
        = (drop (slice_off sl) ?arr)[slice_len sl := x]"
    by (simp add: drop_update_swap)
  then show ?thesis
    using take_Suc_update_last [OF n, of x] by (simp add: slice_elems_def sl' st')
next
  case False
  have sl': "slice_array sl' = next_ref st" "slice_off sl' = 0" "slice_len sl' = Suc (slice_len sl)"
    and st': "arrays st' (next_ref st)
              = slice_elems (arrays st) sl @ [x] @ replicate (spare st (slice_cap sl)) []"
    using ap False by (auto simp: go_append_def)
  have "length (slice_elems (arrays st) sl) = slice_len sl"
    by (rule slice_elems_length [OF wf])
  then show ?thesis
    by (simp add: slice_elems_def [of "arrays st'" sl'] sl' st')
qed

lemma go_append_wf:
  assumes wf: "wf_slice st sl" and ap: "go_append sl x st = (sl', st')"
  shows "wf_slice st' sl'" and "0 < slice_cap sl'"
proof -
  have len: "length (slice_elems (arrays st) sl) = slice_len sl"
    by (rule slice_elems_length [OF wf])
  show "wf_slice st' sl'"
    using wf ap len by (auto simp: go_append_def wf_slice_def split: if_splits)
  show "0 < slice_cap sl'"
    using ap by (auto simp: go_append_def split: if_splits)
qed

text \<open>
  What \<^verbatim>\<open>append\<close> leaves alone: every allocated array other than the one the slice points
  into; and the result points into the array of the slice or into a new one.
\<close>

lemma go_append_others:
  assumes ap: "go_append sl x st = (sl', st')"
  shows "\<forall>a. a < next_ref st \<and> (0 < slice_cap sl \<longrightarrow> a \<noteq> slice_array sl) \<longrightarrow>
             arrays st' a = arrays st a"
    and "(0 < slice_cap sl \<and> slice_array sl' = slice_array sl) \<or> slice_array sl' = next_ref st"
  using ap by (auto simp: go_append_def split: if_splits)

lemma wf_slice_kept:
  assumes wf: "wf_slice st sl"
    and same: "0 < slice_cap sl \<Longrightarrow> arrays st' (slice_array sl) = arrays st (slice_array sl)"
    and le: "next_ref st \<le> next_ref st'"
  shows "wf_slice st' sl"
  using assms by (auto simp: wf_slice_def)

lemma slice_elems_kept:
  assumes wf: "wf_slice st sl"
    and same: "0 < slice_cap sl \<Longrightarrow> arrays st' (slice_array sl) = arrays st (slice_array sl)"
  shows "slice_elems (arrays st') sl = slice_elems (arrays st) sl"
proof (cases "0 < slice_cap sl")
  case True
  then show ?thesis using same by (simp add: slice_elems_def)
next
  case False
  then have "slice_len sl = 0" using wf by (simp add: wf_slice_def)
  then show ?thesis by (simp add: slice_elems_def)
qed

text \<open>One step on a store that never fails: it completes, whatever the slices are.\<close>

lemma populate_step_completes:
  assumes ok: "never_errors (stores st s)"
  shows "\<exists>st'. populate_step i s t st = Inr st'
           \<and> nodes st' = nodes st \<and> transports st' = transports st
           \<and> (\<forall>r. never_errors (stores st' r) = never_errors (stores st r))"
proof -
  obtain sl' st1 where ap: "go_append (peers_slice (stores st s)) (LocalAddr t st) st = (sl', st1)"
    by (cases "go_append (peers_slice (stores st s)) (LocalAddr t st) st") auto
  note fr = go_append_frame [OF ap]
  have "populate_step i s t st
        = Inr (st1\<lparr>stores := (stores st1)(s := (stores st1 s)\<lparr>peers_slice := sl'\<rparr>)\<rparr>)"
    using ok ap fr(3)
    by (simp add: populate_step_def never_errors_def PeerStore_Peers_def PeerStore_SetPeers_def)
  then show ?thesis using fr by (auto simp: never_errors_def)
qed

lemma populate_row_completes:
  assumes ok: "never_errors (stores st s)"
  shows "\<exists>st'. forE (enumerate k ts)
                 (\<lambda>(j, transport) st. if i = j then Inr st else populate_step i s transport st) st
               = Inr st'
           \<and> nodes st' = nodes st \<and> transports st' = transports st
           \<and> (\<forall>r. never_errors (stores st' r) = never_errors (stores st r))"
  using ok
proof (induction ts arbitrary: k st)
  case Nil
  then show ?case by simp
next
  case (Cons t ts)
  show ?case
  proof (cases "i = k")
    case True
    then show ?thesis using Cons.IH [OF Cons.prems, of "Suc k"] by simp
  next
    case False
    from populate_step_completes [OF Cons.prems, of i t] obtain st1 where
      1: "populate_step i s t st = Inr st1" and n: "nodes st1 = nodes st"
      and tr: "transports st1 = transports st"
      and ne: "\<forall>r. never_errors (stores st1 r) = never_errors (stores st r)"
      by blast
    have "never_errors (stores st1 s)" using ne Cons.prems by simp
    from Cons.IH [OF this, of "Suc k"] show ?thesis using False 1 n tr ne by auto
  qed
qed

lemma populate_loops_complete:
  assumes ok: "\<forall>s \<in> set ss. never_errors (stores st s)"
  shows "\<exists>st'. forE (enumerate k ss)
                 (\<lambda>(i, store).
                    forE (enumerate 0 ts)
                      (\<lambda>(j, transport) st.
                         if i = j then Inr st else populate_step i store transport st))
                 st
               = Inr st'
           \<and> nodes st' = nodes st \<and> transports st' = transports st"
  using ok
proof (induction ss arbitrary: k st)
  case Nil
  then show ?case by simp
next
  case (Cons s ss)
  have "never_errors (stores st s)" using Cons.prems by simp
  from populate_row_completes [OF this, of 0 ts k] obtain st1 where
    1: "forE (enumerate 0 ts)
          (\<lambda>(j, transport) st. if k = j then Inr st else populate_step k s transport st) st
        = Inr st1"
    and n: "nodes st1 = nodes st" and tr: "transports st1 = transports st"
    and ne: "\<forall>r. never_errors (stores st1 r) = never_errors (stores st r)"
    by blast
  have "\<forall>r \<in> set ss. never_errors (stores st1 r)" using ne Cons.prems by simp
  from Cons.IH [OF this, of "Suc k"] show ?case using 1 n tr by auto
qed

lemma populatePeerStores_completes:
  assumes len: "length ss = length ts"
    and ok: "\<forall>s \<in> set ss. never_errors (stores st s)"
  shows "\<exists>st'. populatePeerStores ss ts st = Inr st'
           \<and> nodes st' = nodes st \<and> transports st' = transports st"
  using populate_loops_complete [OF ok, of 0 ts] len by (simp add: populatePeerStores_def)

text \<open>
  One step on a store of a slice of stores that share no storage: the store gets the address
  at its end, the other stores of the slice hold what they held, and still no storage is shared.
\<close>

lemma populate_step_unshared:
  assumes un: "unshared ss st" and s: "s \<in> set ss" and ok: "never_errors (stores st s)"
  shows "\<exists>st'. populate_step i s t st = Inr st'
           \<and> unshared ss st'
           \<and> store_peers st' s = store_peers st s @ [LocalAddr t st]
           \<and> (\<forall>r \<in> set ss. r \<noteq> s \<longrightarrow> store_peers st' r = store_peers st r)
           \<and> (\<forall>r. r \<noteq> s \<longrightarrow> stores st' r = stores st r)
           \<and> nodes st' = nodes st \<and> transports st' = transports st
           \<and> (\<forall>r. never_errors (stores st' r) = never_errors (stores st r))"
proof -
  let ?sl = "peers_slice (stores st s)"
  obtain sl' st1 where ap: "go_append ?sl (LocalAddr t st) st = (sl', st1)"
    by (cases "go_append ?sl (LocalAddr t st) st") auto
  note fr = go_append_frame [OF ap]
  let ?st' = "st1\<lparr>stores := (stores st1)(s := (stores st1 s)\<lparr>peers_slice := sl'\<rparr>)\<rparr>"
  have res: "populate_step i s t st = Inr ?st'"
    using ok ap fr(3)
    by (simp add: populate_step_def never_errors_def PeerStore_Peers_def PeerStore_SetPeers_def)
  have wfs: "wf_slice st ?sl" using un s by (simp add: unshared_def)
  note el = go_append_elems [OF wfs ap]
  note wf' = go_append_wf [OF wfs ap]
  note oth = go_append_others [OF ap]
  have arr: "arrays ?st' = arrays st1" and nr: "next_ref ?st' = next_ref st1" by simp_all
  have sl_s: "peers_slice (stores ?st' s) = sl'" by simp
  have sl_r: "peers_slice (stores ?st' r) = peers_slice (stores st r)" if "r \<noteq> s" for r
    using that fr(3) by simp
  have same: "arrays st1 (slice_array (peers_slice (stores st r)))
              = arrays st (slice_array (peers_slice (stores st r)))"
    if r: "r \<in> set ss" "r \<noteq> s" and c: "0 < slice_cap (peers_slice (stores st r))" for r
  proof -
    have wfr: "wf_slice st (peers_slice (stores st r))" using un r(1) by (simp add: unshared_def)
    then have lt: "slice_array (peers_slice (stores st r)) < next_ref st"
      using c by (simp add: wf_slice_def)
    have "0 < slice_cap ?sl \<longrightarrow> slice_array (peers_slice (stores st r)) \<noteq> slice_array ?sl"
      using un r s c by (auto simp: unshared_def)
    then show ?thesis
      using oth(1) [rule_format, of "slice_array (peers_slice (stores st r))"] lt by simp
  qed
  have keep: "store_peers ?st' r = store_peers st r" if r: "r \<in> set ss" "r \<noteq> s" for r
  proof -
    have wfr: "wf_slice st (peers_slice (stores st r))" using un r(1) by (simp add: unshared_def)
    have "slice_elems (arrays st1) (peers_slice (stores st r))
          = slice_elems (arrays st) (peers_slice (stores st r))"
      by (rule slice_elems_kept [OF wfr]) (rule same [OF r])
    then show ?thesis using sl_r [OF r(2)] by (simp add: store_peers_def)
  qed
  have wf_all: "wf_slice ?st' (peers_slice (stores ?st' r))" if r: "r \<in> set ss" for r
  proof (cases "r = s")
    case True
    have "wf_slice ?st' sl' = wf_slice st1 sl'" by (simp add: wf_slice_def)
    then show ?thesis using True wf'(1) sl_s by simp
  next
    case False
    have wfr: "wf_slice st (peers_slice (stores st r))" using un r by (simp add: unshared_def)
    have "wf_slice st1 (peers_slice (stores st r))"
      by (rule wf_slice_kept [OF wfr _ fr(5)]) (rule same [OF r False])
    moreover have "wf_slice ?st' (peers_slice (stores st r)) = wf_slice st1 (peers_slice (stores st r))"
      by (simp add: wf_slice_def)
    ultimately show ?thesis using sl_r [OF False] by simp
  qed
  have apart: "slice_array (peers_slice (stores ?st' r)) \<noteq> slice_array (peers_slice (stores ?st' r'))"
    if r: "r \<in> set ss" "r' \<in> set ss" "r \<noteq> r'"
      and c: "0 < slice_cap (peers_slice (stores ?st' r))" "0 < slice_cap (peers_slice (stores ?st' r'))"
    for r r'
  proof -
    have new: "slice_array sl' \<noteq> slice_array (peers_slice (stores st q))"
      if q: "q \<in> set ss" "q \<noteq> s" and cq: "0 < slice_cap (peers_slice (stores st q))" for q
    proof -
      have wfq: "wf_slice st (peers_slice (stores st q))" using un q(1) by (simp add: unshared_def)
      then have lt: "slice_array (peers_slice (stores st q)) < next_ref st"
        using cq by (simp add: wf_slice_def)
      from oth(2) show ?thesis
      proof
        assume "0 < slice_cap ?sl \<and> slice_array sl' = slice_array ?sl"
        then show ?thesis using un q s cq by (auto simp: unshared_def)
      next
        assume "slice_array sl' = next_ref st"
        then show ?thesis using lt by simp
      qed
    qed
    show ?thesis
    proof (cases "r = s")
      case True
      then have "r' \<noteq> s" using r(3) by simp
      then show ?thesis using True new [of r'] r(2) c(2) sl_s sl_r [of r'] by auto
    next
      case False
      show ?thesis
      proof (cases "r' = s")
        case True
        then show ?thesis using False new [of r] r(1) c(1) sl_s sl_r [of r] by auto
      next
        case r's: False
        then show ?thesis using False un r c sl_r [of r] sl_r [of r'] by (auto simp: unshared_def)
      qed
    qed
  qed
  have un': "unshared ss ?st'"
    unfolding unshared_def using wf_all apart by blast
  have at: "store_peers ?st' s = store_peers st s @ [LocalAddr t st]"
    using el by (simp add: store_peers_def)
  have rec: "\<forall>r. r \<noteq> s \<longrightarrow> stores ?st' r = stores st r" using fr(3) by simp
  have ne: "\<forall>r. never_errors (stores ?st' r) = never_errors (stores st r)"
    using fr(3) by (simp add: never_errors_def)
  have nt: "nodes ?st' = nodes st \<and> transports ?st' = transports st" using fr by simp
  show ?thesis using res un' at keep rec ne nt by blast
qed

lemma enumerate_as_map: "enumerate 0 xs = map (\<lambda>j. (j, xs ! j)) [0..<length xs]"
  by (rule nth_equalityI) (simp_all add: nth_enumerate_eq)

lemma others_as_peer_addrs:
  "map (\<lambda>(j, t). localAddr (tr t)) (filter (\<lambda>(j, t). j \<noteq> i) (enumerate 0 ts))
   = peer_addrs tr ts i"
  by (simp add: enumerate_as_map peer_addrs_def filter_map o_def)

lemma populate_row_unshared:
  assumes un: "unshared ss st" and s: "s \<in> set ss" and ok: "never_errors (stores st s)"
  shows "\<exists>st'. forE (enumerate k ts)
                 (\<lambda>(j, transport) st. if i = j then Inr st else populate_step i s transport st) st
               = Inr st'
           \<and> unshared ss st'
           \<and> store_peers st' s
             = store_peers st s
               @ map (\<lambda>(j, t). localAddr (transports st t))
                   (filter (\<lambda>(j, t). j \<noteq> i) (enumerate k ts))
           \<and> (\<forall>r \<in> set ss. r \<noteq> s \<longrightarrow> store_peers st' r = store_peers st r)
           \<and> (\<forall>r. r \<noteq> s \<longrightarrow> stores st' r = stores st r)
           \<and> nodes st' = nodes st \<and> transports st' = transports st
           \<and> (\<forall>r. never_errors (stores st' r) = never_errors (stores st r))"
  using un ok
proof (induction ts arbitrary: k st)
  case Nil
  then show ?case by simp
next
  case (Cons t ts)
  show ?case
  proof (cases "i = k")
    case True
    then show ?thesis using Cons.IH [OF Cons.prems, of "Suc k"] by simp
  next
    case False
    from populate_step_unshared [OF Cons.prems(1) s Cons.prems(2), of i t] obtain st1 where
      1: "populate_step i s t st = Inr st1" and u1: "unshared ss st1"
      and a1: "store_peers st1 s = store_peers st s @ [LocalAddr t st]"
      and k1: "\<forall>r \<in> set ss. r \<noteq> s \<longrightarrow> store_peers st1 r = store_peers st r"
      and r1: "\<forall>r. r \<noteq> s \<longrightarrow> stores st1 r = stores st r"
      and n1: "nodes st1 = nodes st" and t1: "transports st1 = transports st"
      and e1: "\<forall>r. never_errors (stores st1 r) = never_errors (stores st r)"
      by blast
    have ok1: "never_errors (stores st1 s)" using e1 Cons.prems(2) by simp
    from Cons.IH [OF u1 ok1, of "Suc k"] obtain st2 where
      2: "forE (enumerate (Suc k) ts)
            (\<lambda>(j, transport) st. if i = j then Inr st else populate_step i s transport st) st1
          = Inr st2"
      and u2: "unshared ss st2"
      and a2: "store_peers st2 s
               = store_peers st1 s
                 @ map (\<lambda>(j, t). localAddr (transports st1 t))
                     (filter (\<lambda>(j, t). j \<noteq> i) (enumerate (Suc k) ts))"
      and k2: "\<forall>r \<in> set ss. r \<noteq> s \<longrightarrow> store_peers st2 r = store_peers st1 r"
      and r2: "\<forall>r. r \<noteq> s \<longrightarrow> stores st2 r = stores st1 r"
      and n2: "nodes st2 = nodes st1" and t2: "transports st2 = transports st1"
      and e2: "\<forall>r. never_errors (stores st2 r) = never_errors (stores st1 r)"
      by blast
    have run: "forE (enumerate k (t # ts))
                 (\<lambda>(j, transport) st. if i = j then Inr st else populate_step i s transport st) st
               = Inr st2"
      using False 1 2 by simp
    have at: "store_peers st2 s
              = store_peers st s
                @ map (\<lambda>(j, t). localAddr (transports st t))
                    (filter (\<lambda>(j, t). j \<noteq> i) (enumerate k (t # ts)))"
      using False a1 a2 t1 by (simp add: LocalAddr_def)
    show ?thesis
      using run u2 at k1 k2 r1 r2 n1 n2 t1 t2 e1 e2 by (intro exI [of _ st2]) simp
  qed
qed

lemma populate_loops_unshared:
  assumes un: "unshared ss0 st" and sub: "set ss \<subseteq> set ss0" and d: "distinct ss"
    and ok: "\<forall>s \<in> set ss. never_errors (stores st s)"
  shows "\<exists>st'. forE (enumerate k ss)
                 (\<lambda>(i, store).
                    forE (enumerate 0 ts)
                      (\<lambda>(j, transport) st.
                         if i = j then Inr st else populate_step i store transport st))
                 st
               = Inr st'
           \<and> unshared ss0 st'
           \<and> (\<forall>m < length ss.
                 store_peers st' (ss ! m)
                 = store_peers st (ss ! m) @ peer_addrs (transports st) ts (k + m))
           \<and> (\<forall>r \<in> set ss0. r \<notin> set ss \<longrightarrow> store_peers st' r = store_peers st r)
           \<and> (\<forall>r. r \<notin> set ss \<longrightarrow> stores st' r = stores st r)
           \<and> nodes st' = nodes st \<and> transports st' = transports st"
  using un sub d ok
proof (induction ss arbitrary: k st)
  case Nil
  then show ?case by simp
next
  case (Cons s ss)
  have s0: "s \<in> set ss0" using Cons.prems(2) by simp
  have oks: "never_errors (stores st s)" using Cons.prems(4) by simp
  from populate_row_unshared [OF Cons.prems(1) s0 oks, of 0 ts k] obtain st1 where
    1: "forE (enumerate 0 ts)
          (\<lambda>(j, transport) st. if k = j then Inr st else populate_step k s transport st) st
        = Inr st1"
    and u1: "unshared ss0 st1"
    and a1: "store_peers st1 s = store_peers st s @ peer_addrs (transports st) ts k"
    and k1: "\<forall>r \<in> set ss0. r \<noteq> s \<longrightarrow> store_peers st1 r = store_peers st r"
    and r1: "\<forall>r. r \<noteq> s \<longrightarrow> stores st1 r = stores st r"
    and n1: "nodes st1 = nodes st" and t1: "transports st1 = transports st"
    and e1: "\<forall>r. never_errors (stores st1 r) = never_errors (stores st r)"
    unfolding others_as_peer_addrs by blast
  have sub': "set ss \<subseteq> set ss0" using Cons.prems(2) by simp
  have d': "distinct ss" and sn: "s \<notin> set ss" using Cons.prems(3) by simp_all
  have ok': "\<forall>r \<in> set ss. never_errors (stores st1 r)" using e1 Cons.prems(4) by simp
  from Cons.IH [OF u1 sub' d' ok', of "Suc k"] obtain st2 where
    2: "forE (enumerate (Suc k) ss)
          (\<lambda>(i, store).
             forE (enumerate 0 ts)
               (\<lambda>(j, transport) st.
                  if i = j then Inr st else populate_step i store transport st))
          st1
        = Inr st2"
    and u2: "unshared ss0 st2"
    and a2: "\<forall>m < length ss.
               store_peers st2 (ss ! m)
               = store_peers st1 (ss ! m) @ peer_addrs (transports st1) ts (Suc k + m)"
    and k2: "\<forall>r \<in> set ss0. r \<notin> set ss \<longrightarrow> store_peers st2 r = store_peers st1 r"
    and r2: "\<forall>r. r \<notin> set ss \<longrightarrow> stores st2 r = stores st1 r"
    and n2: "nodes st2 = nodes st1" and t2: "transports st2 = transports st1"
    by blast
  have run: "forE (enumerate k (s # ss))
               (\<lambda>(i, store).
                  forE (enumerate 0 ts)
                    (\<lambda>(j, transport) st.
                       if i = j then Inr st else populate_step i store transport st))
               st
             = Inr st2"
    using 1 2 by simp
  have at: "store_peers st2 ((s # ss) ! m)
            = store_peers st ((s # ss) ! m) @ peer_addrs (transports st) ts (k + m)"
    if m: "m < length (s # ss)" for m
  proof (cases m)
    case 0
    have "store_peers st2 s = store_peers st1 s" using k2 s0 sn by simp
    then show ?thesis using 0 a1 by simp
  next
    case (Suc m')
    then have m': "m' < length ss" using m by simp
    then have mem: "ss ! m' \<in> set ss" by simp
    then have ne: "ss ! m' \<noteq> s" using sn by auto
    have in0: "ss ! m' \<in> set ss0" using mem sub' by auto
    have "store_peers st1 (ss ! m') = store_peers st (ss ! m')" using k1 in0 ne by simp
    then show ?thesis using Suc a2 m' t1 by simp
  qed
  have keep: "\<forall>r \<in> set ss0. r \<notin> set (s # ss) \<longrightarrow> store_peers st2 r = store_peers st r"
    using k1 k2 by simp
  have rec: "\<forall>r. r \<notin> set (s # ss) \<longrightarrow> stores st2 r = stores st r"
    using r1 r2 by simp
  show ?case
    using run u2 at keep rec n1 n2 t1 t2 by (intro exI [of _ st2]) simp
qed

text \<open>
  C5. When \<open>populatePeerStores\<close> runs over \<open>n\<close> different peer stores that share no storage,
  are empty and never fail, and \<open>n\<close> transports, it completes, and afterwards the store at index
  \<open>i\<close> holds exactly the local addresses of the transports at the other indices, in ascending
  index order (so \<open>n - 1\<close> of them); still no storage is shared, and no other store, no transport
  and no node is changed.
\<close>

theorem populatePeerStores_peers:
  assumes len: "length ss = length ts"
    and dist: "distinct ss"
    and un: "unshared ss st"
    and empty: "\<forall>s \<in> set ss. store_peers st s = [] \<and> never_errors (stores st s)"
  shows "\<exists>st'. populatePeerStores ss ts st = Inr st'
           \<and> (\<forall>i < length ss.
                 store_peers st' (ss ! i)
                 = map (\<lambda>j. LocalAddr (ts ! j) st) (filter (\<lambda>j. j \<noteq> i) [0..<length ts]))
           \<and> (\<forall>i < length ss. length (store_peers st' (ss ! i)) = length ss - 1)
           \<and> unshared ss st'
           \<and> (\<forall>r. r \<notin> set ss \<longrightarrow> stores st' r = stores st r)
           \<and> transports st' = transports st \<and> nodes st' = nodes st"
proof -
  have ok: "\<forall>s \<in> set ss. never_errors (stores st s)" using empty by simp
  from populate_loops_unshared [OF un subset_refl dist ok, of 0 ts] obtain st' where
    run: "forE (enumerate 0 ss)
            (\<lambda>(i, store).
               forE (enumerate 0 ts)
                 (\<lambda>(j, transport) st.
                    if i = j then Inr st else populate_step i store transport st))
            st
          = Inr st'"
    and u: "unshared ss st'"
    and a: "\<forall>m < length ss.
              store_peers st' (ss ! m)
              = store_peers st (ss ! m) @ peer_addrs (transports st) ts (0 + m)"
    and r: "\<forall>r. r \<notin> set ss \<longrightarrow> stores st' r = stores st r"
    and n: "nodes st' = nodes st" and t: "transports st' = transports st"
    by blast
  have res: "populatePeerStores ss ts st = Inr st'"
    using run len by (simp add: populatePeerStores_def)
  have at: "store_peers st' (ss ! i)
            = map (\<lambda>j. LocalAddr (ts ! j) st) (filter (\<lambda>j. j \<noteq> i) [0..<length ts])"
    if i: "i < length ss" for i
  proof -
    have "store_peers st (ss ! i) = []" using empty i by simp
    then show ?thesis using a i by (simp add: peer_addrs_def LocalAddr_def)
  qed
  have cnt: "length (filter (\<lambda>j. j \<noteq> i) [0..<length ts]) = length ss - 1" if i: "i < length ss" for i
  proof -
    have "set (filter (\<lambda>j. j \<noteq> i) [0..<length ts]) = {0..<length ts} - {i}" by auto
    then have "card (set (filter (\<lambda>j. j \<noteq> i) [0..<length ts])) = length ts - 1"
      using i len by simp
    moreover have "card (set (filter (\<lambda>j. j \<noteq> i) [0..<length ts]))
                   = length (filter (\<lambda>j. j \<noteq> i) [0..<length ts])"
      by (rule distinct_card) simp
    ultimately show ?thesis using len by simp
  qed
  show ?thesis using res at cnt u r n t by simp
qed

theorem populatePeerStores_peers_witness:
  "\<exists>st'. populatePeerStores [0, 1, 2] [0, 1, 2] sample_state = Inr st'
     \<and> store_peers st' 0 = [''b'', ''c'']
     \<and> store_peers st' 1 = [''a'', ''c'']
     \<and> store_peers st' 2 = [''a'', ''b'']"
proof -
  have len: "length [0, 1, 2 :: ref] = length [0, 1, 2 :: ref]" by simp
  have dist: "distinct [0, 1, 2 :: ref]" by simp
  have un: "unshared [0, 1, 2] sample_state"
    by (simp add: unshared_def wf_slice_def sample_state_def StaticPeers_def nil_slice_def)
  have empty: "\<forall>s \<in> set [0, 1, 2 :: ref].
                 store_peers sample_state s = [] \<and> never_errors (stores sample_state s)"
    by (simp add: sample_state_def StaticPeers_def never_errors_def store_peers_def
        slice_elems_def nil_slice_def)
  obtain st' where res: "populatePeerStores [0, 1, 2] [0, 1, 2] sample_state = Inr st'"
    and at: "\<forall>i < length [0, 1, 2 :: ref].
               store_peers st' ([0, 1, 2] ! i)
               = map (\<lambda>j. LocalAddr ([0, 1, 2] ! j) sample_state)
                   (filter (\<lambda>j. j \<noteq> i) [0..<length [0, 1, 2 :: ref]])"
    using populatePeerStores_peers [OF len dist un empty] by blast
  have up: "[0..<3] = [0, 1, 2]" by (simp add: upt_rec)
  have a0: "store_peers st' 0 = [''b'', ''c'']"
    using at [rule_format, of 0] by (simp add: up LocalAddr_def sample_state_def)
  have a1: "store_peers st' 1 = [''a'', ''c'']"
    using at [rule_format, of 1] by (simp add: up LocalAddr_def sample_state_def)
  have a2: "store_peers st' 2 = [''a'', ''b'']"
    using at [rule_format, of 2] by (simp add: up LocalAddr_def sample_state_def)
  show ?thesis using res a0 a1 a2 by blast
qed

text \<open>
  Three different peer stores that are empty and never fail, but hold slices over one backing
  array with room: every row of the loop writes into the same two cells, so all three stores
  end with the addresses a and b, and the first holds its own address and not c.
\<close>

theorem populatePeerStores_shared_array_counterexample:
  "distinct [0, 1, 2 :: ref]
   \<and> store_peers shared_array_state 0 = []
   \<and> store_peers shared_array_state 1 = []
   \<and> store_peers shared_array_state 2 = []
   \<and> never_errors (stores shared_array_state 0)
   \<and> never_errors (stores shared_array_state 1)
   \<and> never_errors (stores shared_array_state 2)
   \<and> \<not> isl (populatePeerStores [0, 1, 2] [0, 1, 2] shared_array_state)
   \<and> store_peers (projr (populatePeerStores [0, 1, 2] [0, 1, 2] shared_array_state)) 0
     = [''a'', ''b'']
   \<and> store_peers (projr (populatePeerStores [0, 1, 2] [0, 1, 2] shared_array_state)) 0
     \<noteq> [''b'', ''c'']"
  by (simp add: populatePeerStores_def populate_step_def go_append_def PeerStore_Peers_def
      PeerStore_SetPeers_def LocalAddr_def store_peers_def slice_elems_def never_errors_def
      shared_array_state_def)

lemma forE_Inl:
  "forE xs body s = Inl e \<Longrightarrow> \<exists>x \<in> set xs. \<exists>s'. body x s' = Inl e"
  by (induction xs arbitrary: s) (auto split: sum.splits)

lemma populate_step_Inl:
  "populate_step i s t st = Inl e \<Longrightarrow> \<exists>m. e = Panic (''failed to '' @ m)"
  by (auto simp: populate_step_def Let_def split: sum.splits prod.splits)

lemma populate_loops_Inl:
  assumes "forE (enumerate 0 ss)
             (\<lambda>(i, store).
                forE (enumerate 0 ts)
                  (\<lambda>(j, transport) st.
                     if i = j then Inr st else populate_step i store transport st))
             st = Inl e"
  shows "\<exists>m. e = Panic (''failed to '' @ m)"
proof -
  from forE_Inl [OF assms] obtain i store s' where
    "forE (enumerate 0 ts)
       (\<lambda>(j, transport) st. if i = j then Inr st else populate_step i store transport st) s' = Inl e"
    by auto
  from forE_Inl [OF this] obtain j transport s'' where
    "(if i = j then Inr s'' else populate_step i store transport s'') = Inl e"
    by auto
  then have "populate_step i store transport s'' = Inl e" by (auto split: if_splits)
  then show ?thesis by (rule populate_step_Inl)
qed

text \<open>
  C8. \<open>populatePeerStores\<close> panics with the length-mismatch message when the number of peer
  stores differs from the number of transports, and only then. When no store of the slice ever
  fails, it panics at all exactly when the two lengths differ; with equal lengths it completes.
\<close>

theorem populatePeerStores_panics:
  "(length ss \<noteq> length ts \<longrightarrow>
      populatePeerStores ss ts st = Inl (Panic ''peer stores and tranports length mismatch''))
   \<and> (populatePeerStores ss ts st = Inl (Panic ''peer stores and tranports length mismatch'') \<longrightarrow>
      length ss \<noteq> length ts)
   \<and> ((\<forall>s \<in> set ss. never_errors (stores st s)) \<longrightarrow>
        ((\<exists>e. populatePeerStores ss ts st = Inl e) \<longleftrightarrow> length ss \<noteq> length ts)
        \<and> (length ss = length ts \<longrightarrow> (\<exists>st'. populatePeerStores ss ts st = Inr st')))"
proof (intro conjI impI)
  assume "length ss \<noteq> length ts"
  then show "populatePeerStores ss ts st = Inl (Panic ''peer stores and tranports length mismatch'')"
    by (simp add: populatePeerStores_def)
next
  assume p: "populatePeerStores ss ts st = Inl (Panic ''peer stores and tranports length mismatch'')"
  show "length ss \<noteq> length ts"
  proof
    assume "length ss = length ts"
    with p have "forE (enumerate 0 ss)
             (\<lambda>(i, store).
                forE (enumerate 0 ts)
                  (\<lambda>(j, transport) st.
                     if i = j then Inr st else populate_step i store transport st))
             st = Inl (Panic ''peer stores and tranports length mismatch'')"
      by (simp add: populatePeerStores_def)
    from populate_loops_Inl [OF this] show False by simp
  qed
next
  assume ok: "\<forall>s \<in> set ss. never_errors (stores st s)"
  show "(\<exists>e. populatePeerStores ss ts st = Inl e) \<longleftrightarrow> length ss \<noteq> length ts"
  proof (cases "length ss = length ts")
    case True
    from populatePeerStores_completes [OF True ok] show ?thesis using True by auto
  next
    case False
    then show ?thesis by (simp add: populatePeerStores_def)
  qed
next
  assume ok: "\<forall>s \<in> set ss. never_errors (stores st s)" and len: "length ss = length ts"
  show "\<exists>st'. populatePeerStores ss ts st = Inr st'"
    using populatePeerStores_completes [OF len ok] by blast
qed

theorem populatePeerStores_panics_witness:
  "populatePeerStores [0] [0, 1] sample_state
     = Inl (Panic ''peer stores and tranports length mismatch'')
   \<and> (\<exists>st'. populatePeerStores [0, 1] [0, 1] sample_state = Inr st')
   \<and> populatePeerStores [0, 1] [0, 1] (sample_state\<lparr>stores := (\<lambda>r. failing_store)\<rparr>)
     = Inl (Panic ''failed to get peers for node 0: disk'')"
proof -
  have a: "populatePeerStores [0] [0, 1] sample_state
     = Inl (Panic ''peer stores and tranports length mismatch'')"
    using populatePeerStores_panics [of "[0]" "[0, 1]" sample_state] by simp
  have ok: "\<forall>s \<in> set [0, 1 :: ref]. never_errors (stores sample_state s)"
    by (simp add: sample_state_def StaticPeers_def never_errors_def)
  have b: "\<exists>st'. populatePeerStores [0, 1] [0, 1] sample_state = Inr st'"
    using populatePeerStores_panics [of "[0, 1]" "[0, 1]" sample_state] ok by simp
  have c: "populatePeerStores [0, 1] [0, 1] (sample_state\<lparr>stores := (\<lambda>r. failing_store)\<rparr>)
     = Inl (Panic ''failed to get peers for node 0: disk'')"
    by (simp add: populatePeerStores_def populate_step_def PeerStore_Peers_def failing_store_def
        Itoa_def utoa.simps digit_def)
  show ?thesis using a b c by blast
qed

section \<open>Properties of connectLoobackTransports\<close>

lemma LocalAddr_Connect [simp]: "LocalAddr r (Connect t p other st) = LocalAddr r st"
  by (simp add: LocalAddr_def Connect_def)

lemma LocalAddr_connect_pair [simp]: "LocalAddr r (connect_pair a b st) = LocalAddr r st"
  by (simp add: connect_pair_def Let_def)

lemma stores_Connect [simp]: "stores (Connect t p other st) = stores st"
  by (simp add: Connect_def)

lemma nodes_Connect [simp]: "nodes (Connect t p other st) = nodes st"
  by (simp add: Connect_def)

lemma next_ref_Connect [simp]: "next_ref (Connect t p other st) = next_ref st"
  by (simp add: Connect_def)

lemma peers_Connect:
  "peers (transports (Connect t p other st) r)
   = (if r = t then (peers (transports st t))(p \<mapsto> other) else peers (transports st r))"
  by (simp add: Connect_def)

lemma distinct_addrs_Connect [simp]:
  "distinct_addrs ts (Connect t p other st) = distinct_addrs ts st"
  by (simp add: distinct_addrs_def)

lemma distinct_addrs_connect_pair [simp]:
  "distinct_addrs ts (connect_pair a b st) = distinct_addrs ts st"
  by (simp add: distinct_addrs_def)

lemma registered_Connect_new: "registered t other (Connect t (LocalAddr other st) other st)"
  by (simp add: registered_def peers_Connect)

lemma registered_Connect_keep:
  assumes "registered x y st" and "LocalAddr b st = LocalAddr y st \<Longrightarrow> b = y"
  shows "registered x y (Connect a (LocalAddr b st) b st)"
  using assms by (auto simp: registered_def peers_Connect)

lemma registered_connect_pair_keep:
  assumes d: "distinct_addrs ts st" and a: "a \<in> set ts" and b: "b \<in> set ts" and y: "y \<in> set ts"
    and r: "registered x y st"
  shows "registered x y (connect_pair a b st)"
proof -
  have ia: "LocalAddr a st = LocalAddr y st \<Longrightarrow> a = y"
    using d a y by (auto simp: distinct_addrs_def dest: inj_onD)
  have ib: "LocalAddr b st = LocalAddr y st \<Longrightarrow> b = y"
    using d b y by (auto simp: distinct_addrs_def dest: inj_onD)
  let ?st = "Connect a (LocalAddr b st) b st"
  have 1: "registered x y ?st" by (rule registered_Connect_keep [OF r ib])
  have "registered x y (Connect b (LocalAddr a ?st) a ?st)"
    by (rule registered_Connect_keep [OF 1]) (simp add: ia)
  then show ?thesis by (simp add: connect_pair_def Let_def)
qed

lemma registered_connect_pair_new:
  assumes d: "distinct_addrs ts st" and a: "a \<in> set ts" and b: "b \<in> set ts"
  shows "registered a b (connect_pair a b st) \<and> registered b a (connect_pair a b st)"
proof -
  have iab: "LocalAddr a st = LocalAddr b st \<Longrightarrow> a = b"
    using d a b by (auto simp: distinct_addrs_def dest: inj_onD)
  let ?st = "Connect a (LocalAddr b st) b st"
  have 1: "registered a b ?st" by (rule registered_Connect_new)
  have 2: "registered a b (Connect b (LocalAddr a ?st) a ?st)"
    by (rule registered_Connect_keep [OF 1]) (simp add: iab)
  have 3: "registered b a (Connect b (LocalAddr a ?st) a ?st)"
    by (rule registered_Connect_new)
  show ?thesis using 2 3 by (simp add: connect_pair_def Let_def)
qed

lemma fold_establishes:
  assumes "\<And>x s. x \<in> set xs \<Longrightarrow> Inv s \<Longrightarrow> Inv (f x s)"
    and "\<And>x s. x \<in> set xs \<Longrightarrow> Inv s \<Longrightarrow> Q x (f x s)"
    and "\<And>x y s. x \<in> set xs \<Longrightarrow> y \<in> set xs \<Longrightarrow> Inv s \<Longrightarrow> Q y s \<Longrightarrow> Q y (f x s)"
    and "Inv s"
  shows "Inv (fold f xs s) \<and> (\<forall>x \<in> set xs. Q x (fold f xs s))"
  using assms
proof (induction xs rule: rev_induct)
  case Nil
  then show ?case by simp
next
  case (snoc x xs)
  have ih: "Inv (fold f xs s) \<and> (\<forall>y \<in> set xs. Q y (fold f xs s))"
    by (rule snoc.IH) (auto intro: snoc.prems)
  have inv: "Inv (f x (fold f xs s))" using ih by (auto intro: snoc.prems(1))
  have new: "Q x (f x (fold f xs s))" using ih by (auto intro: snoc.prems(2))
  have old: "Q y (f x (fold f xs s))" if "y \<in> set xs" for y
    using ih that by (auto intro: snoc.prems(3))
  show ?case using inv new old by auto
qed

lemma connectLoobackTransports_rows:
  "connectLoobackTransports ts st = fold (\<lambda>(i, transport1). connect_row ts i transport1) (enumerate 0 ts) st"
  by (simp add: connectLoobackTransports_def connect_row_def)

lemma snd_enumerate_mem: "p \<in> set (enumerate k ts) \<Longrightarrow> snd p \<in> set ts"
  by (cases p) (auto simp: in_set_enumerate_eq)

lemma LocalAddr_connect_row [simp]: "LocalAddr r (connect_row ts i t1 st) = LocalAddr r st"
proof -
  have "LocalAddr r (fold (\<lambda>(j, transport2) st. if i \<noteq> j then connect_pair t1 transport2 st else st) xs st)
        = LocalAddr r st" for xs
    by (induction xs arbitrary: st) auto
  then show ?thesis by (simp add: connect_row_def)
qed

lemma distinct_addrs_connect_row [simp]:
  "distinct_addrs us (connect_row ts i t1 st) = distinct_addrs us st"
  by (simp add: distinct_addrs_def)

lemma connect_row_keep:
  assumes d: "distinct_addrs ts st" and t1: "t1 \<in> set ts" and y: "y \<in> set ts"
    and r: "registered x y st"
  shows "registered x y (connect_row ts i t1 st)"
proof -
  have "registered x y
          (fold (\<lambda>(j, transport2) st. if i \<noteq> j then connect_pair t1 transport2 st else st) xs s)"
    if "snd ` set xs \<subseteq> set ts" and "distinct_addrs ts s" and "registered x y s" for xs s
    using that
  proof (induction xs arbitrary: s)
    case Nil
    then show ?case by simp
  next
    case (Cons p xs)
    obtain j t2 where pe: "p = (j, t2)" by (cases p)
    have t2: "t2 \<in> set ts" using Cons.prems(1) pe by simp
    have sub: "snd ` set xs \<subseteq> set ts" using Cons.prems(1) by simp
    have keep: "registered x y (connect_pair t1 t2 s)"
      by (rule registered_connect_pair_keep [OF Cons.prems(2) t1 t2 y Cons.prems(3)])
    show ?case
    proof (cases "i \<noteq> j")
      case True
      have "distinct_addrs ts (connect_pair t1 t2 s)" using Cons.prems(2) by simp
      from Cons.IH [OF sub this keep] show ?thesis using True pe by simp
    next
      case False
      from Cons.IH [OF sub Cons.prems(2) Cons.prems(3)] show ?thesis using False pe by simp
    qed
  qed
  moreover have "snd ` set (enumerate 0 ts) \<subseteq> set ts"
    by (auto dest: snd_enumerate_mem)
  ultimately show ?thesis using d r by (simp add: connect_row_def)
qed

lemma connect_row_new:
  assumes d: "distinct_addrs ts st" and t1: "t1 \<in> set ts"
  shows "\<forall>p \<in> set (enumerate 0 ts). fst p \<noteq> i \<longrightarrow>
           registered t1 (snd p) (connect_row ts i t1 st) \<and> registered (snd p) t1 (connect_row ts i t1 st)"
proof -
  let ?f = "\<lambda>(j, transport2) st. if i \<noteq> j then connect_pair t1 transport2 st else st"
  let ?Q = "\<lambda>p s. fst p \<noteq> i \<longrightarrow> registered t1 (snd p) s \<and> registered (snd p) t1 s"
  have "distinct_addrs ts (fold ?f (enumerate 0 ts) st)
        \<and> (\<forall>p \<in> set (enumerate 0 ts). ?Q p (fold ?f (enumerate 0 ts) st))"
  proof (rule fold_establishes [where Inv = "distinct_addrs ts" and Q = ?Q])
    fix p s assume "p \<in> set (enumerate 0 ts)" and s: "distinct_addrs ts s"
    obtain j t2 where pe: "p = (j, t2)" by (cases p)
    show "distinct_addrs ts (?f p s)" using s pe by simp
  next
    fix p s assume p: "p \<in> set (enumerate 0 ts)" and s: "distinct_addrs ts s"
    obtain j t2 where pe: "p = (j, t2)" by (cases p)
    have t2: "t2 \<in> set ts" using snd_enumerate_mem [OF p] pe by simp
    show "?Q p (?f p s)"
      using registered_connect_pair_new [OF s t1 t2] pe by simp
  next
    fix p q s assume p: "p \<in> set (enumerate 0 ts)" and q: "q \<in> set (enumerate 0 ts)"
      and s: "distinct_addrs ts s" and Q: "?Q q s"
    obtain j t2 where pe: "p = (j, t2)" by (cases p)
    obtain k t3 where qe: "q = (k, t3)" by (cases q)
    have t2: "t2 \<in> set ts" using snd_enumerate_mem [OF p] pe by simp
    have t3: "t3 \<in> set ts" using snd_enumerate_mem [OF q] qe by simp
    show "?Q q (?f p s)"
      using Q pe qe registered_connect_pair_keep [OF s t1 t2 t3]
        registered_connect_pair_keep [OF s t1 t2 t1]
      by auto
  next
    show "distinct_addrs ts st" by (rule d)
  qed
  then show ?thesis by (simp add: connect_row_def)
qed

lemma connectLoobackTransports_all:
  assumes d: "distinct_addrs ts st"
  shows "\<forall>p \<in> set (enumerate 0 ts). \<forall>q \<in> set (enumerate 0 ts). fst q \<noteq> fst p \<longrightarrow>
           registered (snd p) (snd q) (connectLoobackTransports ts st)"
proof -
  let ?f = "\<lambda>(i, transport1). connect_row ts i transport1"
  let ?Q = "\<lambda>p s. \<forall>q \<in> set (enumerate 0 ts). fst q \<noteq> fst p \<longrightarrow>
                 registered (snd p) (snd q) s \<and> registered (snd q) (snd p) s"
  have "distinct_addrs ts (fold ?f (enumerate 0 ts) st)
        \<and> (\<forall>p \<in> set (enumerate 0 ts). ?Q p (fold ?f (enumerate 0 ts) st))"
  proof (rule fold_establishes [where Inv = "distinct_addrs ts" and Q = ?Q])
    fix p s assume p: "p \<in> set (enumerate 0 ts)" and s: "distinct_addrs ts s"
    obtain i t1 where pe: "p = (i, t1)" by (cases p)
    have t1: "t1 \<in> set ts" using snd_enumerate_mem [OF p] pe by simp
    show "distinct_addrs ts (?f p s)" using s pe by simp
  next
    fix p s assume p: "p \<in> set (enumerate 0 ts)" and s: "distinct_addrs ts s"
    obtain i t1 where pe: "p = (i, t1)" by (cases p)
    have t1: "t1 \<in> set ts" using snd_enumerate_mem [OF p] pe by simp
    show "?Q p (?f p s)"
      using connect_row_new [OF s t1, of i] pe by auto
  next
    fix p q s assume p: "p \<in> set (enumerate 0 ts)" and q: "q \<in> set (enumerate 0 ts)"
      and s: "distinct_addrs ts s" and Q: "?Q q s"
    obtain i t1 where pe: "p = (i, t1)" by (cases p)
    have t1: "t1 \<in> set ts" using snd_enumerate_mem [OF p] pe by simp
    have tq: "snd q \<in> set ts" using q by (rule snd_enumerate_mem)
    show "?Q q (?f p s)"
    proof
      fix r assume r: "r \<in> set (enumerate 0 ts)"
      have tr: "snd r \<in> set ts" using r by (rule snd_enumerate_mem)
      show "fst r \<noteq> fst q \<longrightarrow>
            registered (snd q) (snd r) (?f p s) \<and> registered (snd r) (snd q) (?f p s)"
        using Q r pe connect_row_keep [OF s t1 tr, of "snd q" i]
          connect_row_keep [OF s t1 tq, of "snd r" i]
        by auto
    qed
  next
    show "distinct_addrs ts st" by (rule d)
  qed
  then show ?thesis by (auto simp: connectLoobackTransports_rows)
qed


lemma LocalAddr_connectLoobackTransports [simp]:
  "LocalAddr r (connectLoobackTransports ts st) = LocalAddr r st"
proof -
  have "LocalAddr r (fold (\<lambda>(i, transport1). connect_row ts i transport1) xs st) = LocalAddr r st"
    for xs
    by (induction xs arbitrary: st) auto
  then show ?thesis by (simp add: connectLoobackTransports_rows)
qed

lemma stores_connect_pair [simp]: "stores (connect_pair a b st) = stores st"
  by (simp add: connect_pair_def Let_def)

lemma nodes_connect_pair [simp]: "nodes (connect_pair a b st) = nodes st"
  by (simp add: connect_pair_def Let_def)

lemma next_ref_connect_pair [simp]: "next_ref (connect_pair a b st) = next_ref st"
  by (simp add: connect_pair_def Let_def)

lemma connectLoobackTransports_frame [simp]:
  "stores (connectLoobackTransports ts st) = stores st"
  "nodes (connectLoobackTransports ts st) = nodes st"
  "next_ref (connectLoobackTransports ts st) = next_ref st"
proof -
  have row: "stores (fold (\<lambda>(j, transport2) st. if i \<noteq> j then connect_pair t1 transport2 st else st) xs s) = stores s
     \<and> nodes (fold (\<lambda>(j, transport2) st. if i \<noteq> j then connect_pair t1 transport2 st else st) xs s) = nodes s
     \<and> next_ref (fold (\<lambda>(j, transport2) st. if i \<noteq> j then connect_pair t1 transport2 st else st) xs s) = next_ref s"
    for xs i t1 s
    by (induction xs arbitrary: s) auto
  have "stores (fold (\<lambda>(i, transport1). connect_row ts i transport1) xs s) = stores s
     \<and> nodes (fold (\<lambda>(i, transport1). connect_row ts i transport1) xs s) = nodes s
     \<and> next_ref (fold (\<lambda>(i, transport1). connect_row ts i transport1) xs s) = next_ref s"
    for xs s
    by (induction xs arbitrary: s) (auto simp: connect_row_def row)
  then show "stores (connectLoobackTransports ts st) = stores st"
    "nodes (connectLoobackTransports ts st) = nodes st"
    "next_ref (connectLoobackTransports ts st) = next_ref st"
    by (simp_all add: connectLoobackTransports_rows)
qed

lemma Connect_noop: "peers (transports st t) p = Some other \<Longrightarrow> Connect t p other st = st"
  by (simp add: Connect_def map_upd_triv)

lemma connect_pair_noop:
  assumes "registered a b st" and "registered b a st"
  shows "connect_pair a b st = st"
proof -
  have 1: "Connect a (LocalAddr b st) b st = st"
    using assms(1) by (simp add: registered_def Connect_noop)
  have 2: "Connect b (LocalAddr a st) a st = st"
    using assms(2) by (simp add: registered_def Connect_noop)
  show ?thesis by (simp add: connect_pair_def Let_def 1 2)
qed

lemma registered_connect_pair_self:
  "registered a b (connect_pair a b st) \<and> registered b a (connect_pair a b st)"
  by (auto simp: registered_def connect_pair_def Let_def peers_Connect)

lemma connect_pair_idem: "connect_pair a b (connect_pair a b st) = connect_pair a b st"
  using registered_connect_pair_self [of a b st] by (simp add: connect_pair_noop)

lemma connectLoobackTransports_noop:
  assumes all: "\<forall>p \<in> set (enumerate 0 ts). \<forall>q \<in> set (enumerate 0 ts). fst q \<noteq> fst p \<longrightarrow>
                  registered (snd p) (snd q) st"
  shows "connectLoobackTransports ts st = st"
proof -
  have row: "fold (\<lambda>(j, transport2) st. if i \<noteq> j then connect_pair t1 transport2 st else st) ys st = st"
    if p: "(i, t1) \<in> set (enumerate 0 ts)" and ys: "set ys \<subseteq> set (enumerate 0 ts)" for i t1 ys
    using ys
  proof (induction ys)
    case Nil
    then show ?case by simp
  next
    case (Cons q ys)
    obtain j t2 where qe: "q = (j, t2)" by (cases q)
    have q: "(j, t2) \<in> set (enumerate 0 ts)" using Cons.prems qe by simp
    have ih: "fold (\<lambda>(j, transport2) st. if i \<noteq> j then connect_pair t1 transport2 st else st) ys st
              = st"
      using Cons by simp
    show ?case
    proof (cases "i \<noteq> j")
      case True
      have "connect_pair t1 t2 st = st"
      proof (rule connect_pair_noop)
        show "registered t1 t2 st" using all p q True by fastforce
        show "registered t2 t1 st" using all p q True by fastforce
      qed
      then show ?thesis using ih True by (simp add: qe)
    next
      case False
      then show ?thesis using ih by (simp add: qe)
    qed
  qed
  have "fold (\<lambda>(i, transport1). connect_row ts i transport1) xs st = st"
    if xs: "set xs \<subseteq> set (enumerate 0 ts)" for xs
    using xs
  proof (induction xs)
    case Nil
    then show ?case by simp
  next
    case (Cons p xs)
    obtain i t1 where pe: "p = (i, t1)" by (cases p)
    have p: "(i, t1) \<in> set (enumerate 0 ts)" using Cons.prems pe by simp
    have "connect_row ts i t1 st = st"
      unfolding connect_row_def by (rule row [OF p]) simp
    then show ?case using Cons pe by simp
  qed
  then show ?thesis by (simp add: connectLoobackTransports_rows)
qed

text \<open>
  C6. When the transports of the slice have pairwise different local addresses, then after
  \<open>connectLoobackTransports\<close> every transport \<open>i\<close> has, for every other index \<open>j\<close>, the
  local address of transport \<open>j\<close> registered with the handle of transport \<open>j\<close>; no local
  address changes; connecting everything a second time changes nothing; and connecting one
  pair twice is the same as connecting it once, for any pair in any state.
\<close>

theorem connectLoobackTransports_complete:
  assumes d: "distinct_addrs ts st"
  shows "(\<forall>i < length ts. \<forall>j < length ts. i \<noteq> j \<longrightarrow>
            peers (transports (connectLoobackTransports ts st) (ts ! i)) (LocalAddr (ts ! j) st)
            = Some (ts ! j))
         \<and> (\<forall>t. LocalAddr t (connectLoobackTransports ts st) = LocalAddr t st)
         \<and> connectLoobackTransports ts (connectLoobackTransports ts st)
           = connectLoobackTransports ts st
         \<and> (\<forall>a b s. connect_pair a b (connect_pair a b s) = connect_pair a b s)"
proof -
  let ?st = "connectLoobackTransports ts st"
  note all = connectLoobackTransports_all [OF d]
  have reg: "peers (transports ?st (ts ! i)) (LocalAddr (ts ! j) st) = Some (ts ! j)"
    if "i < length ts" "j < length ts" "i \<noteq> j" for i j
  proof -
    have pi: "(i, ts ! i) \<in> set (enumerate 0 ts)" using that by (simp add: in_set_enumerate_eq)
    have pj: "(j, ts ! j) \<in> set (enumerate 0 ts)" using that by (simp add: in_set_enumerate_eq)
    have "registered (ts ! i) (ts ! j) ?st" using all pi pj that(3) by fastforce
    then show ?thesis by (simp add: registered_def)
  qed
  have again: "connectLoobackTransports ts ?st = ?st"
    by (rule connectLoobackTransports_noop) (rule all)
  show ?thesis using reg again by (simp add: connect_pair_idem)
qed

text \<open>
  Without different addresses the registry, which is keyed by address, keeps the last handle
  only: of three transports with the address a, the first ends with the third registered
  under a, not the second.
\<close>

theorem connectLoobackTransports_counterexample:
  "LocalAddr 1 (connectLoobackTransports [0, 1, 2] same_addr_state) = ''a''
   \<and> peers (transports (connectLoobackTransports [0, 1, 2] same_addr_state) 0) ''a'' = Some 2
   \<and> peers (transports (connectLoobackTransports [0, 1, 2] same_addr_state) 0)
        (LocalAddr 1 (connectLoobackTransports [0, 1, 2] same_addr_state)) \<noteq> Some 1"
  by (simp add: connectLoobackTransports_def connect_pair_def Connect_def LocalAddr_def
      same_addr_state_def)

theorem connectLoobackTransports_complete_witness:
  "distinct_addrs [0, 1, 2] sample_state
   \<and> peers (transports (connectLoobackTransports [0, 1, 2] sample_state) 0) ''b'' = Some 1
   \<and> peers (transports (connectLoobackTransports [0, 1, 2] sample_state) 0) ''c'' = Some 2
   \<and> peers (transports (connectLoobackTransports [0, 1, 2] sample_state) 2) ''a'' = Some 0
   \<and> connectLoobackTransports [0, 1, 2] (connectLoobackTransports [0, 1, 2] sample_state)
     = connectLoobackTransports [0, 1, 2] sample_state"
proof -
  have d: "distinct_addrs [0, 1, 2] sample_state"
    by (simp add: distinct_addrs_def LocalAddr_def sample_state_def)
  note c = connectLoobackTransports_complete [OF d]
  have r: "\<forall>i < length [0, 1, 2 :: ref]. \<forall>j < length [0, 1, 2 :: ref]. i \<noteq> j \<longrightarrow>
            peers (transports (connectLoobackTransports [0, 1, 2] sample_state) ([0, 1, 2] ! i))
              (LocalAddr ([0, 1, 2] ! j) sample_state)
            = Some ([0, 1, 2] ! j)"
    using c by blast
  have a: "peers (transports (connectLoobackTransports [0, 1, 2] sample_state) 0) ''b'' = Some 1"
    using r [rule_format, of 0 1] by (simp add: LocalAddr_def sample_state_def)
  have b: "peers (transports (connectLoobackTransports [0, 1, 2] sample_state) 0) ''c'' = Some 2"
    using r [rule_format, of 0 2] by (simp add: LocalAddr_def sample_state_def)
  have e: "peers (transports (connectLoobackTransports [0, 1, 2] sample_state) 2) ''a'' = Some 0"
    using r [rule_format, of 2 0] by (simp add: LocalAddr_def sample_state_def)
  show ?thesis using d a b e c by blast
qed

section \<open>Properties of Shutdown\<close>

lemma upt_shift: "[k..<Suc (k + n)] = k # [Suc k..<Suc (k + n)]"
  by (rule upt_conv_Cons) simp

lemma upt_shift2: "[k..<Suc (Suc (k + n))] = k # [Suc k..<Suc (Suc (k + n))]"
  by (rule upt_conv_Cons) simp

lemma request_shutdowns_fold:
  "fold (\<lambda>(i, r) (futures, tr). (futures @ [ShutdownError lib r], tr @ [ShutdownRequested i]))
     (enumerate k rafts) (fs, tr)
   = (fs @ map (ShutdownError lib) rafts, tr @ map ShutdownRequested [k..<k + length rafts])"
proof (induction rafts arbitrary: k fs tr)
  case Nil
  then show ?case by simp
next
  case (Cons r rafts)
  show ?case using Cons.IH [of "Suc k"] by (simp del: upt_Suc add: upt_shift)
qed

lemma request_shutdowns_eq:
  "request_shutdowns lib rafts tr
   = (map (ShutdownError lib) rafts, tr @ map ShutdownRequested [0..<length rafts])"
  using request_shutdowns_fold [of lib 0 rafts "[]" tr] by (simp add: request_shutdowns_def)

lemma await_futures_ok:
  "\<forall>f \<in> set fs. f = None \<Longrightarrow>
   await_futures (enumerate k fs) tr = (Inr (), tr @ map FutureWaited [k..<k + length fs])"
proof (induction fs arbitrary: k tr)
  case Nil
  then show ?case by simp
next
  case (Cons f fs)
  show ?case using Cons.IH [of "Suc k"] Cons.prems by (simp del: upt_Suc add: upt_shift)
qed

lemma await_futures_error:
  "m < length fs \<Longrightarrow> fs ! m = Some err \<Longrightarrow> \<forall>j < m. fs ! j = None \<Longrightarrow>
   await_futures (enumerate k fs) tr
   = (Inl (Fatalf (''failed to shutdown raft node '' @ Itoa (int (k + m)) @ '': '' @ err)),
      tr @ map FutureWaited [k..<Suc (k + m)])"
proof (induction fs arbitrary: k tr m)
  case Nil
  then show ?case by simp
next
  case (Cons f fs)
  show ?case
  proof (cases m)
    case 0
    then show ?thesis using Cons.prems by simp
  next
    case (Suc m')
    have f: "f = None" using Cons.prems(3) Suc by auto
    have 1: "m' < length fs" using Cons.prems(1) Suc by simp
    have 2: "fs ! m' = Some err" using Cons.prems(2) Suc by simp
    have 3: "\<forall>j < m'. fs ! j = None" using Cons.prems(3) Suc by auto
    show ?thesis using Cons.IH [OF 1 2 3, of "Suc k"] f Suc
      by (simp del: upt_Suc add: upt_shift2)
  qed
qed

lemma await_futures_trace:
  "\<exists>j \<le> length fs. snd (await_futures (enumerate k fs) tr) = tr @ map FutureWaited [k..<k + j]"
proof (induction fs arbitrary: k tr)
  case Nil
  then show ?case by simp
next
  case (Cons f fs)
  show ?case
  proof (cases f)
    case None
    obtain j where j: "j \<le> length fs"
      and e: "snd (await_futures (enumerate (Suc k) fs) (tr @ [FutureWaited k]))
              = (tr @ [FutureWaited k]) @ map FutureWaited [Suc k..<Suc k + j]"
      using Cons.IH [of "Suc k" "tr @ [FutureWaited k]"] by blast
    have "snd (await_futures (enumerate k (f # fs)) tr) = tr @ map FutureWaited [k..<k + Suc j]"
      using e None by (simp del: upt_Suc add: upt_shift)
    then show ?thesis using j by (intro exI [of _ "Suc j"]) simp
  next
    case (Some err)
    have "snd (await_futures (enumerate k (f # fs)) tr) = tr @ map FutureWaited [k..<k + 1]"
      using Some by simp
    then show ?thesis by (intro exI [of _ 1]) simp
  qed
qed

text \<open>
  C4. \<open>Shutdown\<close> calls \<^verbatim>\<open>Shutdown()\<close> on every given handle, in index order, before it asks
  any future for its error: whatever the outcome, the events it adds are all the shutdown
  requests followed by the futures waited for, from index 0 on. When no future reports an error
  it returns after waiting for all of them; otherwise it fails the test at the first future
  with an error, with a message that names that index, and waits for no later future.
\<close>

theorem Shutdown_requests_all_first:
  "(\<exists>j \<le> length rafts.
      snd (Shutdown lib rafts tr)
      = tr @ map ShutdownRequested [0..<length rafts] @ map FutureWaited [0..<j])
   \<and> ((\<forall>r \<in> set rafts. ShutdownError lib r = None) \<longrightarrow>
        Shutdown lib rafts tr
        = (Inr (), tr @ map ShutdownRequested [0..<length rafts]
                      @ map FutureWaited [0..<length rafts]))
   \<and> (\<forall>m err. m < length rafts \<and> ShutdownError lib (rafts ! m) = Some err
          \<and> (\<forall>j < m. ShutdownError lib (rafts ! j) = None) \<longrightarrow>
        Shutdown lib rafts tr
        = (Inl (Fatalf (''failed to shutdown raft node '' @ Itoa (int m) @ '': '' @ err)),
           tr @ map ShutdownRequested [0..<length rafts] @ map FutureWaited [0..<Suc m]))"
proof (intro conjI impI allI)
  let ?tr = "tr @ map ShutdownRequested [0..<length rafts]"
  let ?fs = "map (ShutdownError lib) rafts"
  have sd: "Shutdown lib rafts tr = await_futures (enumerate 0 ?fs) ?tr"
    by (simp add: Shutdown_def request_shutdowns_eq)
  show "\<exists>j \<le> length rafts.
      snd (Shutdown lib rafts tr)
      = tr @ map ShutdownRequested [0..<length rafts] @ map FutureWaited [0..<j]"
    using await_futures_trace [of ?fs 0 ?tr] by (simp add: sd)
  {
    assume "\<forall>r \<in> set rafts. ShutdownError lib r = None"
    then have "\<forall>f \<in> set ?fs. f = None" by simp
    from await_futures_ok [OF this, of 0 ?tr]
    show "Shutdown lib rafts tr
        = (Inr (), tr @ map ShutdownRequested [0..<length rafts]
                      @ map FutureWaited [0..<length rafts])"
      by (simp add: sd)
  }
  {
    fix m err
    assume a: "m < length rafts \<and> ShutdownError lib (rafts ! m) = Some err
          \<and> (\<forall>j < m. ShutdownError lib (rafts ! j) = None)"
    have 1: "m < length ?fs" using a by simp
    have 2: "?fs ! m = Some err" using a by simp
    have 3: "\<forall>j < m. ?fs ! j = None" using a by simp
    from await_futures_error [OF 1 2 3, of 0 ?tr]
    show "Shutdown lib rafts tr
        = (Inl (Fatalf (''failed to shutdown raft node '' @ Itoa (int m) @ '': '' @ err)),
           tr @ map ShutdownRequested [0..<length rafts] @ map FutureWaited [0..<Suc m])"
      by (simp add: sd)
  }
qed

theorem Shutdown_requests_all_first_witness:
  "Shutdown sample_lib [(''x'', 0), (''bad'', 1), (''y'', 2)] []
   = (Inl (Fatalf ''failed to shutdown raft node 1: boom''),
      [ShutdownRequested 0, ShutdownRequested 1, ShutdownRequested 2,
       FutureWaited 0, FutureWaited 1])
   \<and> Shutdown sample_lib [(''x'', 0), (''y'', 2)] []
   = (Inr (), [ShutdownRequested 0, ShutdownRequested 1, FutureWaited 0, FutureWaited 1])"
proof -
  let ?rs = "[(''x'', 0), (''bad'', 1), (''y'', 2)] :: (string \<times> ref) list"
  have up: "[0..<2] = [0, 1]" "[0..<3] = [0, 1, 2]" by (simp_all add: upt_rec)
  have i1: "Itoa 1 = ''1''" by (simp add: Itoa_def utoa.simps digit_def)
  have pre: "1 < length ?rs \<and> ShutdownError sample_lib (?rs ! 1) = Some ''boom''
          \<and> (\<forall>j < 1. ShutdownError sample_lib (?rs ! j) = None)"
    by (simp add: sample_lib_def)
  have a: "Shutdown sample_lib ?rs []
   = (Inl (Fatalf ''failed to shutdown raft node 1: boom''),
      [ShutdownRequested 0, ShutdownRequested 1, ShutdownRequested 2,
       FutureWaited 0, FutureWaited 1])"
    using Shutdown_requests_all_first [of ?rs sample_lib "[]", THEN conjunct2, THEN conjunct2,
        rule_format, of 1 "''boom''"] pre
    by (simp add: up i1)
  have ok: "\<forall>r \<in> set [(''x'', 0), (''y'', 2 :: ref)]. ShutdownError sample_lib r = None"
    by (simp add: sample_lib_def)
  have b: "Shutdown sample_lib [(''x'', 0), (''y'', 2)] []
   = (Inr (), [ShutdownRequested 0, ShutdownRequested 1, FutureWaited 0, FutureWaited 1])"
    using Shutdown_requests_all_first [of "[(''x'', 0), (''y'', 2)]" sample_lib "[]"] ok
    by (simp add: up)
  show ?thesis using a b by blast
qed

section \<open>Properties of newNode\<close>

text \<open>
  C9. For every address, \<open>newNode\<close> produces a dependency set with in-memory log and stable
  stores, a snapshot store that discards every snapshot, an empty static peer store, the
  in-memory transport that the library creates for that address (bound to the address when
  the library binds the transport it returns to the address it is given), and the library's
  default configuration with HeartbeatTimeout, ElectionTimeout and LeaderLeaseTimeout set to
  50 milliseconds, CommitTimeout set to 25 milliseconds and a logger prefixed with the address.
\<close>

theorem newNode_dependency_set:
  "Logs (fst (newNode lib addr st)) = InmemStore
   \<and> Stable (fst (newNode lib addr st)) = InmemStore
   \<and> Snapshots (fst (newNode lib addr st)) = DiscardSnapshotStore
   \<and> stores (snd (newNode lib addr st)) (Peers (fst (newNode lib addr st))) = StaticPeers
   \<and> transports (snd (newNode lib addr st)) (Transport (fst (newNode lib addr st)))
     = snd (NewInmemTransport lib addr)
   \<and> (localAddr (snd (NewInmemTransport lib addr)) = addr \<longrightarrow>
        LocalAddr (Transport (fst (newNode lib addr st))) (snd (newNode lib addr st)) = addr)
   \<and> HeartbeatTimeout (Config (fst (newNode lib addr st))) = 50 * Millisecond
   \<and> ElectionTimeout (Config (fst (newNode lib addr st))) = 50 * Millisecond
   \<and> LeaderLeaseTimeout (Config (fst (newNode lib addr st))) = 50 * Millisecond
   \<and> CommitTimeout (Config (fst (newNode lib addr st))) = 25 * Millisecond
   \<and> Millisecond = 1000000
   \<and> Config (fst (newNode lib addr st))
     = (DefaultConfig lib)\<lparr>HeartbeatTimeout := 50000000, ElectionTimeout := 50000000,
          CommitTimeout := 25000000, LeaderLeaseTimeout := 50000000,
          Logger := Some (addr @ '': '')\<rparr>"
  by (simp add: newNode_def new_transport_def new_store_def Let_def LocalAddr_def Millisecond_def)

theorem newNode_dependency_set_witness:
  "LocalAddr (Transport (fst (newNode sample_lib ''0'' empty_state)))
     (snd (newNode sample_lib ''0'' empty_state)) = ''0''
   \<and> Snapshots (fst (newNode sample_lib ''0'' empty_state)) = DiscardSnapshotStore
   \<and> HeartbeatTimeout (Config (fst (newNode sample_lib ''0'' empty_state))) = 50000000
   \<and> CommitTimeout (Config (fst (newNode sample_lib ''0'' empty_state))) = 25000000
   \<and> SnapshotThreshold (Config (fst (newNode sample_lib ''0'' empty_state))) = 8192"
proof -
  note t = newNode_dependency_set [of sample_lib "''0''" empty_state]
  have b: "localAddr (snd (NewInmemTransport sample_lib ''0'')) = ''0''"
    by (simp add: sample_lib_def)
  have 1: "LocalAddr (Transport (fst (newNode sample_lib ''0'' empty_state)))
     (snd (newNode sample_lib ''0'' empty_state)) = ''0''"
    using t b by blast
  have 2: "Snapshots (fst (newNode sample_lib ''0'' empty_state)) = DiscardSnapshotStore"
    using t by blast
  have 3: "HeartbeatTimeout (Config (fst (newNode sample_lib ''0'' empty_state))) = 50000000"
    using t by simp
  have 4: "CommitTimeout (Config (fst (newNode sample_lib ''0'' empty_state))) = 25000000"
    using t by simp
  have "Config (fst (newNode sample_lib ''0'' empty_state))
     = (DefaultConfig sample_lib)\<lparr>HeartbeatTimeout := 50000000, ElectionTimeout := 50000000,
          CommitTimeout := 25000000, LeaderLeaseTimeout := 50000000,
          Logger := Some (''0'' @ '': '')\<rparr>"
    using t by blast
  then have 5: "SnapshotThreshold (Config (fst (newNode sample_lib ''0'' empty_state))) = 8192"
    by (simp add: sample_lib_def sample_config_def)
  show ?thesis using 1 2 3 4 5 by blast
qed

text \<open>The snapshot store of a new node is the discard store, not an in-memory store.\<close>

theorem newNode_snapshot_store_counterexample:
  "Snapshots (fst (newNode sample_lib ''0'' empty_state)) = DiscardSnapshotStore
   \<and> Snapshots (fst (newNode sample_lib ''0'' empty_state)) \<noteq> InmemSnapshotStore"
  by (simp add: newNode_def new_transport_def new_store_def Let_def)

section \<open>Properties of Cluster\<close>

lemma add_nodes_invariant:
  "case fold (add_node lib) [0..<n] (empty_state, [], []) of
     (st, ss, ts) \<Rightarrow>
       length ss = n \<and> length ts = n \<and> (\<forall>r. never_errors (stores st r))
       \<and> (\<forall>i. (nodes st (int i) \<noteq> None) = (i < n))"
proof (induction n)
  case 0
  then show ?case by (simp add: empty_state_def)
next
  case (Suc n)
  obtain st ss ts where f: "fold (add_node lib) [0..<n] (empty_state, [], []) = (st, ss, ts)"
    by (cases "fold (add_node lib) [0..<n] (empty_state, [], [])") auto
  have ih: "length ss = n \<and> length ts = n \<and> (\<forall>r. never_errors (stores st r))
       \<and> (\<forall>i. (nodes st (int i) \<noteq> None) = (i < n))"
    using Suc.IH f by simp
  have step: "fold (add_node lib) [0..<Suc n] (empty_state, [], []) = add_node lib n (st, ss, ts)"
    using f by simp
  show ?case
    unfolding step using ih
    by (auto simp: add_node_def newNode_def new_transport_def new_store_def Let_def
        split: prod.splits)
qed

lemma wired_populated:
  assumes f: "fold (add_node lib) [0..<n] (empty_state, [], []) = (st, ss, ts)"
  shows "populatePeerStores ss ts (connectLoobackTransports ts st) = Inr (wired lib n)"
    and "nodes (wired lib n) = nodes st"
proof -
  have inv: "length ss = n \<and> length ts = n \<and> (\<forall>r. never_errors (stores st r))"
    using add_nodes_invariant [where lib = lib and n = n] f by simp
  let ?st = "connectLoobackTransports ts st"
  have len: "length ss = length ts" using inv by simp
  have ok: "\<forall>s \<in> set ss. never_errors (stores ?st s)" using inv by simp
  from populatePeerStores_completes [OF len ok] obtain st' where
    res: "populatePeerStores ss ts ?st = Inr st'" and n: "nodes st' = nodes ?st"
    by blast
  have w: "wired lib n = st'" using res by (simp add: wired_def f Let_def)
  show "populatePeerStores ss ts ?st = Inr (wired lib n)"
    using res w by simp
  show "nodes (wired lib n) = nodes st"
    using n w by simp
qed

lemma nodes_wired: "(nodes (wired lib n) (int i) \<noteq> None) = (i < n)"
proof -
  obtain st ss ts where f: "fold (add_node lib) [0..<n] (empty_state, [], []) = (st, ss, ts)"
    by (cases "fold (add_node lib) [0..<n] (empty_state, [], [])") auto
  have "(nodes st (int i) \<noteq> None) = (i < n)"
    using add_nodes_invariant [where lib = lib and n = n] f by simp
  then show ?thesis using wired_populated(2) [OF f] by simp
qed

lemma init_knobs_fold:
  "fold (\<lambda>(j, knob) (st, tr). (init knob st, tr @ [KnobInit j])) (enumerate k knobs) (st, tr)
   = (init_all knobs st, tr @ map KnobInit [k..<k + length knobs])"
proof (induction knobs arbitrary: k st tr)
  case Nil
  then show ?case by (simp add: init_all_def)
next
  case (Cons a knobs)
  show ?case using Cons.IH [of "Suc k"] by (simp del: upt_Suc add: upt_shift init_all_def)
qed

lemma init_knobs_eq:
  "init_knobs knobs (st, tr) = (init_all knobs st, tr @ map KnobInit [0..<length knobs])"
  using init_knobs_fold [of 0 knobs st tr] by (simp add: init_knobs_def)

lemma cleanup_knobs_fold:
  "fold (\<lambda>(j, knob) (st, tr). (cleanup knob st, tr @ [KnobCleanup j])) (enumerate k knobs) (st, tr)
   = (cleanup_all knobs st, tr @ map KnobCleanup [k..<k + length knobs])"
proof (induction knobs arbitrary: k st tr)
  case Nil
  then show ?case by (simp add: cleanup_all_def)
next
  case (Cons a knobs)
  show ?case using Cons.IH [of "Suc k"] by (simp del: upt_Suc add: upt_shift cleanup_all_def)
qed

lemma cleanup_knobs_eq:
  "cleanup_knobs knobs (st, tr) = (cleanup_all knobs st, tr @ map KnobCleanup [0..<length knobs])"
  using cleanup_knobs_fold [of 0 knobs st tr] by (simp add: cleanup_knobs_def)

lemma Cluster_unfold:
  "Cluster lib fsms knobs =
     (case start_rafts lib (enumerate 0 fsms) (init_all knobs (wired lib (length fsms)))
             ([], map KnobInit [0..<length knobs]) of
        (Inl e, tr) \<Rightarrow> (Inl e, init_all knobs (wired lib (length fsms)), tr)
      | (Inr rafts, tr) \<Rightarrow>
          (Inr (rafts, Cluster_cleanup lib rafts knobs),
           init_all knobs (wired lib (length fsms)), tr))"
proof -
  obtain st ss ts where
    f: "fold (add_node lib) [0..<length fsms] (empty_state, [], []) = (st, ss, ts)"
    by (cases "fold (add_node lib) [0..<length fsms] (empty_state, [], [])") auto
  show ?thesis
    by (simp add: Cluster_def Let_def f wired_populated(1) [OF f] init_knobs_eq)
qed


lemma start_rafts_trace:
  "\<exists>j \<le> length fsms.
     snd (start_rafts lib (enumerate k fsms) st (rafts, tr)) = tr @ map EngineStarted [k..<k + j]"
proof (induction fsms arbitrary: k rafts tr)
  case Nil
  then show ?case by simp
next
  case (Cons f fsms)
  show ?case
  proof (cases "nodes st (int k)")
    case None
    then show ?thesis by (intro exI [of _ 0]) simp
  next
    case (Some nd)
    show ?thesis
    proof (cases "newRaft lib f nd st")
      case (Inl err)
      then show ?thesis using Some by (intro exI [of _ 0]) simp
    next
      case (Inr r)
      obtain j where j: "j \<le> length fsms"
        and e: "snd (start_rafts lib (enumerate (Suc k) fsms) st (rafts @ [r], tr @ [EngineStarted k]))
                = (tr @ [EngineStarted k]) @ map EngineStarted [Suc k..<Suc k + j]"
        using Cons.IH [of "Suc k" "rafts @ [r]" "tr @ [EngineStarted k]"] by blast
      have "snd (start_rafts lib (enumerate k (f # fsms)) st (rafts, tr))
            = tr @ map EngineStarted [k..<k + Suc j]"
        using e Some Inr by (simp del: upt_Suc add: upt_shift)
      then show ?thesis using j by (intro exI [of _ "Suc j"]) simp
    qed
  qed
qed

lemma start_rafts_Inr:
  "start_rafts lib (enumerate k fsms) st (rafts, tr) = (Inr rs, tr') \<Longrightarrow>
   tr' = tr @ map EngineStarted [k..<k + length fsms]
   \<and> (\<exists>new. rs = rafts @ new \<and> length new = length fsms
         \<and> (\<forall>i < length fsms. \<exists>nd. nodes st (int (k + i)) = Some nd
               \<and> newRaft lib (fsms ! i) nd st = Inr (new ! i)))"
proof (induction fsms arbitrary: k rafts tr)
  case Nil
  then show ?case by simp
next
  case (Cons f fsms)
  from Cons.prems obtain nd where nd: "nodes st (int k) = Some nd"
    by (cases "nodes st (int k)") auto
  from Cons.prems nd obtain r where r: "newRaft lib f nd st = Inr r"
    by (cases "newRaft lib f nd st") auto
  have rest: "start_rafts lib (enumerate (Suc k) fsms) st (rafts @ [r], tr @ [EngineStarted k])
              = (Inr rs, tr')"
    using Cons.prems nd r by simp
  from Cons.IH [OF rest] obtain new where
    t: "tr' = (tr @ [EngineStarted k]) @ map EngineStarted [Suc k..<Suc k + length fsms]"
    and n1: "rs = (rafts @ [r]) @ new" and n2: "length new = length fsms"
    and n3: "\<forall>i < length fsms. \<exists>nd. nodes st (int (Suc k + i)) = Some nd
               \<and> newRaft lib (fsms ! i) nd st = Inr (new ! i)"
    by blast
  have t': "tr' = tr @ map EngineStarted [k..<k + length (f # fsms)]"
    using t by (simp del: upt_Suc add: upt_shift)
  have all: "\<exists>nd. nodes st (int (k + i)) = Some nd
               \<and> newRaft lib ((f # fsms) ! i) nd st = Inr ((r # new) ! i)"
    if "i < length (f # fsms)" for i
  proof (cases i)
    case 0
    then show ?thesis using nd r by simp
  next
    case (Suc i')
    then have "i' < length fsms" using that by simp
    with n3 have "\<exists>nd. nodes st (int (Suc k + i')) = Some nd
               \<and> newRaft lib (fsms ! i') nd st = Inr (new ! i')" by blast
    then show ?thesis using Suc by simp
  qed
  have "rs = rafts @ (r # new) \<and> length (r # new) = length (f # fsms)"
    using n1 n2 by simp
  then show ?case using t' all by blast
qed

lemma start_rafts_total:
  "\<forall>i < length fsms. \<exists>nd r. nodes st (int (k + i)) = Some nd
       \<and> newRaft lib (fsms ! i) nd st = Inr r \<Longrightarrow>
   \<exists>rs tr'. start_rafts lib (enumerate k fsms) st (rafts, tr) = (Inr rs, tr')"
proof (induction fsms arbitrary: k rafts tr)
  case Nil
  then show ?case by simp
next
  case (Cons f fsms)
  from Cons.prems [rule_format, of 0] obtain nd r where
    nd: "nodes st (int k) = Some nd" and r: "newRaft lib f nd st = Inr r"
    by auto
  have "\<forall>i < length fsms. \<exists>nd r. nodes st (int (Suc k + i)) = Some nd
       \<and> newRaft lib (fsms ! i) nd st = Inr r"
  proof (intro allI impI)
    fix i assume "i < length fsms"
    then have "Suc i < length (f # fsms)" by simp
    from Cons.prems [rule_format, OF this]
    show "\<exists>nd r. nodes st (int (Suc k + i)) = Some nd \<and> newRaft lib (fsms ! i) nd st = Inr r"
      by simp
  qed
  from Cons.IH [OF this, of "rafts @ [r]" "tr @ [EngineStarted k]"]
  show ?case using nd r by simp
qed

lemma await_futures_Inl:
  "\<exists>f \<in> set fs. f \<noteq> None \<Longrightarrow> \<exists>e. fst (await_futures (enumerate k fs) tr) = Inl e"
proof (induction fs arbitrary: k tr)
  case Nil
  then show ?case by simp
next
  case (Cons f fs)
  show ?case
  proof (cases f)
    case None
    then have "\<exists>f \<in> set fs. f \<noteq> None" using Cons.prems by simp
    from Cons.IH [OF this, of "Suc k" "tr @ [FutureWaited k]"] show ?thesis using None by simp
  next
    case (Some err)
    then show ?thesis by simp
  qed
qed

lemma engines_started_append [simp]:
  "engines_started (xs @ ys) = engines_started xs @ engines_started ys"
  by (induction xs rule: engines_started.induct) auto

lemma engines_started_KnobInit [simp]: "engines_started (map KnobInit xs) = []"
  by (induction xs) auto

lemma engines_started_EngineStarted [simp]: "engines_started (map EngineStarted xs) = xs"
  by (induction xs) auto

lemma Cluster_Inr:
  assumes "fst (Cluster lib fsms knobs) = Inr (rafts, c)"
  shows "Cluster lib fsms knobs
         = (Inr (rafts, Cluster_cleanup lib rafts knobs),
            init_all knobs (wired lib (length fsms)),
            map KnobInit [0..<length knobs] @ map EngineStarted [0..<length fsms])
         \<and> length rafts = length fsms
         \<and> (\<forall>i < length fsms. \<exists>nd.
               nodes (init_all knobs (wired lib (length fsms))) (int i) = Some nd
               \<and> newRaft lib (fsms ! i) nd (init_all knobs (wired lib (length fsms)))
                   = Inr (rafts ! i))"
proof -
  let ?st = "init_all knobs (wired lib (length fsms))"
  let ?tr = "map KnobInit [0..<length knobs]"
  obtain res tr where sr: "start_rafts lib (enumerate 0 fsms) ?st ([], ?tr) = (res, tr)"
    by (cases "start_rafts lib (enumerate 0 fsms) ?st ([], ?tr)") auto
  from assms sr have res: "res = Inr rafts"
    by (cases res) (simp_all add: Cluster_unfold)
  from start_rafts_Inr [OF sr [unfolded res]]
  have tr: "tr = ?tr @ map EngineStarted [0..<length fsms]"
    and new: "length rafts = length fsms"
      "\<forall>i < length fsms. \<exists>nd. nodes ?st (int i) = Some nd
               \<and> newRaft lib (fsms ! i) nd ?st = Inr (rafts ! i)"
    by auto
  show ?thesis using sr res tr new by (simp add: Cluster_unfold)
qed

lemma Cluster_total:
  assumes "\<forall>i < length fsms. \<exists>nd r.
             nodes (init_all knobs (wired lib (length fsms))) (int i) = Some nd
             \<and> newRaft lib (fsms ! i) nd (init_all knobs (wired lib (length fsms))) = Inr r"
  shows "\<exists>rafts. fst (Cluster lib fsms knobs) = Inr (rafts, Cluster_cleanup lib rafts knobs)"
proof -
  let ?st = "init_all knobs (wired lib (length fsms))"
  let ?tr = "map KnobInit [0..<length knobs]"
  have "\<forall>i < length fsms. \<exists>nd r. nodes ?st (int (0 + i)) = Some nd
       \<and> newRaft lib (fsms ! i) nd ?st = Inr r"
    using assms by simp
  from start_rafts_total [OF this, of "[]" ?tr]
  obtain rs tr' where "start_rafts lib (enumerate 0 fsms) ?st ([], ?tr) = (Inr rs, tr')" by blast
  then show ?thesis by (simp add: Cluster_unfold)
qed

lemma Cluster_trace:
  "\<exists>j \<le> length fsms.
     snd (snd (Cluster lib fsms knobs))
     = map KnobInit [0..<length knobs] @ map EngineStarted [0..<j]"
proof -
  let ?st = "init_all knobs (wired lib (length fsms))"
  let ?tr = "map KnobInit [0..<length knobs]"
  obtain j where j: "j \<le> length fsms"
    and e: "snd (start_rafts lib (enumerate 0 fsms) ?st ([], ?tr)) = ?tr @ map EngineStarted [0..<0 + j]"
    using start_rafts_trace [of fsms lib 0 ?st "[]" ?tr] by blast
  have "snd (snd (Cluster lib fsms knobs)) = snd (start_rafts lib (enumerate 0 fsms) ?st ([], ?tr))"
    by (simp add: Cluster_unfold split: prod.splits sum.splits)
  then show ?thesis using j e by auto
qed

lemma Cluster_state:
  "fst (snd (Cluster lib fsms knobs)) = init_all knobs (wired lib (length fsms))"
  by (simp add: Cluster_unfold split: prod.splits sum.splits)

lemma Cluster_cleanup_ok:
  assumes "\<forall>r \<in> set rafts. ShutdownError lib r = None"
  shows "Cluster_cleanup lib rafts knobs (st, tr)
         = (Inr (), cleanup_all knobs st,
            tr @ map ShutdownRequested [0..<length rafts] @ map FutureWaited [0..<length rafts]
               @ map KnobCleanup [0..<length knobs])"
proof -
  have fs: "\<forall>f \<in> set (map (ShutdownError lib) rafts). f = None" using assms by simp
  have "Shutdown lib rafts tr
        = (Inr (), tr @ map ShutdownRequested [0..<length rafts]
                      @ map FutureWaited [0..<length rafts])"
    using await_futures_ok [OF fs, of 0 "tr @ map ShutdownRequested [0..<length rafts]"]
    by (simp add: Shutdown_def request_shutdowns_eq)
  then show ?thesis by (simp add: Cluster_cleanup_def cleanup_knobs_eq)
qed

lemma Cluster_cleanup_failed:
  assumes "\<exists>r \<in> set rafts. ShutdownError lib r \<noteq> None"
  shows "\<exists>e j. j \<le> length rafts
           \<and> Cluster_cleanup lib rafts knobs (st, tr)
             = (Inl e, st, tr @ map ShutdownRequested [0..<length rafts] @ map FutureWaited [0..<j])"
proof -
  let ?fs = "map (ShutdownError lib) rafts"
  let ?tr = "tr @ map ShutdownRequested [0..<length rafts]"
  have sd: "Shutdown lib rafts tr = await_futures (enumerate 0 ?fs) ?tr"
    by (simp add: Shutdown_def request_shutdowns_eq)
  have "\<exists>f \<in> set ?fs. f \<noteq> None" using assms by simp
  from await_futures_Inl [OF this, of 0 ?tr]
  obtain e where e: "fst (Shutdown lib rafts tr) = Inl e" by (auto simp: sd)
  obtain j where j: "j \<le> length rafts"
    and t: "snd (Shutdown lib rafts tr) = ?tr @ map FutureWaited [0..<j]"
    using await_futures_trace [of ?fs 0 ?tr] by (auto simp: sd)
  have "Shutdown lib rafts tr = (Inl e, ?tr @ map FutureWaited [0..<j])"
    using e t by (cases "Shutdown lib rafts tr") simp
  then have "Cluster_cleanup lib rafts knobs (st, tr) = (Inl e, st, ?tr @ map FutureWaited [0..<j])"
    by (simp add: Cluster_cleanup_def)
  then show ?thesis using j by auto
qed


lemma nodes_set_peers_fold:
  "nodes (fold (\<lambda>nd st. set_peers (Peers nd) (f st nd) st) sel st) = nodes st"
  by (induction sel arbitrary: st) (simp_all add: set_peers_def)

lemma nodes_Servers_init [simp]: "nodes (Servers_init idxs st) = nodes st"
  by (simp add: Servers_init_def Let_def nodes_set_peers_fold)

lemma newRaft_sample_lib: "newRaft sample_lib fsm nd st = Inr (fsm, Transport nd)"
  by (simp add: newRaft_def sample_lib_def)

lemma sample_lib_starts_all:
  assumes "nodes (init_all knobs (wired sample_lib (length fsms)))
           = nodes (wired sample_lib (length fsms))"
  shows "\<forall>i < length fsms. \<exists>nd r.
           nodes (init_all knobs (wired sample_lib (length fsms))) (int i) = Some nd
           \<and> newRaft sample_lib (fsms ! i) nd (init_all knobs (wired sample_lib (length fsms)))
               = Inr r"
proof (intro allI impI)
  fix i assume "i < length fsms"
  with nodes_wired [of sample_lib "length fsms" i]
  obtain nd where "nodes (wired sample_lib (length fsms)) (int i) = Some nd" by auto
  then show "\<exists>nd r.
           nodes (init_all knobs (wired sample_lib (length fsms))) (int i) = Some nd
           \<and> newRaft sample_lib (fsms ! i) nd (init_all knobs (wired sample_lib (length fsms)))
               = Inr r"
    using assms by (simp add: newRaft_sample_lib)
qed

lemma nodes_init_Servers [simp]: "nodes (init_all [Servers idxs] st) = nodes st"
  by (simp add: init_all_def Servers_def)

lemma nodes_init_Nil [simp]: "init_all [] st = st"
  by (simp add: init_all_def)







text \<open>
  C3. In every run of \<open>Cluster\<close> the events are the \<^verbatim>\<open>init\<close> calls of all knobs, in the order
  supplied, followed by the creations of engine instances, and the state of the cluster is the
  wired cluster with the knobs' \<^verbatim>\<open>init\<close> applied in the order supplied. When \<open>Cluster\<close> returns,
  all \<open>N\<close> engine instances have been created, and the returned cleanup closure, run in any
  state, first requests the shutdown of all \<open>N\<close> handles, then waits for their futures, and
  then, when no future reports an error, calls every knob's \<^verbatim>\<open>cleanup\<close> in the order supplied;
  when a future reports an error it fails the test and calls no \<^verbatim>\<open>cleanup\<close>.
\<close>

theorem Cluster_knob_order:
  "(\<exists>j \<le> length fsms.
      snd (snd (Cluster lib fsms knobs))
      = map KnobInit [0..<length knobs] @ map EngineStarted [0..<j])
   \<and> fst (snd (Cluster lib fsms knobs))
     = foldl (\<lambda>s k. init k s) (wired lib (length fsms)) knobs
   \<and> (\<forall>rafts c. fst (Cluster lib fsms knobs) = Inr (rafts, c) \<longrightarrow>
         snd (snd (Cluster lib fsms knobs))
         = map KnobInit [0..<length knobs] @ map EngineStarted [0..<length fsms]
         \<and> (\<forall>st tr. (\<forall>r \<in> set rafts. ShutdownError lib r = None) \<longrightarrow>
               c (st, tr)
               = (Inr (), foldl (\<lambda>s k. cleanup k s) st knobs,
                  tr @ map ShutdownRequested [0..<length fsms]
                     @ map FutureWaited [0..<length fsms]
                     @ map KnobCleanup [0..<length knobs]))
         \<and> (\<forall>st tr. (\<exists>r \<in> set rafts. ShutdownError lib r \<noteq> None) \<longrightarrow>
               (\<exists>e j. j \<le> length fsms
                  \<and> c (st, tr)
                    = (Inl e, st,
                       tr @ map ShutdownRequested [0..<length fsms]
                          @ map FutureWaited [0..<j]))))"
proof (intro conjI allI impI)
  show "\<exists>j \<le> length fsms.
      snd (snd (Cluster lib fsms knobs))
      = map KnobInit [0..<length knobs] @ map EngineStarted [0..<j]"
    by (rule Cluster_trace)
  show "fst (snd (Cluster lib fsms knobs))
     = foldl (\<lambda>s k. init k s) (wired lib (length fsms)) knobs"
    by (simp add: Cluster_state init_all_def)
next
  fix rafts c assume r: "fst (Cluster lib fsms knobs) = Inr (rafts, c)"
  note full = Cluster_Inr [OF r]
  have len: "length rafts = length fsms" using full by blast
  have c: "c = Cluster_cleanup lib rafts knobs" using full r by simp
  show "snd (snd (Cluster lib fsms knobs))
         = map KnobInit [0..<length knobs] @ map EngineStarted [0..<length fsms]"
    using full by simp
  {
    fix st tr assume "\<forall>r \<in> set rafts. ShutdownError lib r = None"
    from Cluster_cleanup_ok [OF this, of knobs st tr]
    show "c (st, tr)
               = (Inr (), foldl (\<lambda>s k. cleanup k s) st knobs,
                  tr @ map ShutdownRequested [0..<length fsms]
                     @ map FutureWaited [0..<length fsms]
                     @ map KnobCleanup [0..<length knobs])"
      by (simp add: c len cleanup_all_def)
  }
  {
    fix st tr assume "\<exists>r \<in> set rafts. ShutdownError lib r \<noteq> None"
    from Cluster_cleanup_failed [OF this, of knobs st tr]
    show "\<exists>e j. j \<le> length fsms
                  \<and> c (st, tr)
                    = (Inl e, st,
                       tr @ map ShutdownRequested [0..<length fsms]
                          @ map FutureWaited [0..<j])"
      by (simp add: c len)
  }
qed

theorem Cluster_knob_order_witness:
  "\<exists>rafts c. fst (Cluster sample_lib [''f0'', ''f1''] [Servers [0], Servers [0, 1]]) = Inr (rafts, c)
     \<and> snd (snd (Cluster sample_lib [''f0'', ''f1''] [Servers [0], Servers [0, 1]]))
       = [KnobInit 0, KnobInit 1, EngineStarted 0, EngineStarted 1]
     \<and> fst (c (empty_state, [])) = Inr ()
     \<and> snd (snd (c (empty_state, [])))
       = [ShutdownRequested 0, ShutdownRequested 1, FutureWaited 0, FutureWaited 1,
          KnobCleanup 0, KnobCleanup 1]"
proof -
  let ?fsms = "[''f0'', ''f1'']"
  let ?knobs = "[Servers [0], Servers [0, 1]]"
  let ?st = "init_all ?knobs (wired sample_lib (length ?fsms))"
  have "nodes ?st = nodes (wired sample_lib (length ?fsms))"
    by (simp add: init_all_def Servers_def)
  from Cluster_total [OF sample_lib_starts_all [OF this]] obtain rafts c where
    r: "fst (Cluster sample_lib ?fsms ?knobs) = Inr (rafts, c)"
    by blast
  note full = Cluster_Inr [OF r]
  have len: "length rafts = 2" using full by simp
  have ok: "\<forall>x \<in> set rafts. ShutdownError sample_lib x = None"
  proof
    fix x assume "x \<in> set rafts"
    then obtain i where i: "i < 2" and x: "x = rafts ! i"
      using len by (auto simp: in_set_conv_nth)
    from full have al: "\<forall>i < length ?fsms. \<exists>nd. nodes ?st (int i) = Some nd
               \<and> newRaft sample_lib (?fsms ! i) nd ?st = Inr (rafts ! i)"
      by blast
    have "i < length ?fsms" using i by simp
    from al [rule_format, OF this] obtain nd where
      "newRaft sample_lib (?fsms ! i) nd ?st = Inr (rafts ! i)"
      by blast
    then have xi: "x = (?fsms ! i, Transport nd)" using x by (simp add: newRaft_sample_lib)
    have "i = 0 \<or> i = 1" using i by auto
    then show "ShutdownError sample_lib x = None" using xi by (auto simp: sample_lib_def)
  qed
  note t = Cluster_knob_order [of ?fsms sample_lib ?knobs]
  have up: "[0..<2] = [0, 1]" by (simp add: upt_rec)
  from t r have tr: "snd (snd (Cluster sample_lib ?fsms ?knobs))
         = map KnobInit [0..<length ?knobs] @ map EngineStarted [0..<length ?fsms]"
    by blast
  from t r ok have cl: "c (empty_state, [])
               = (Inr (), foldl (\<lambda>s k. cleanup k s) empty_state ?knobs,
                  [] @ map ShutdownRequested [0..<length ?fsms]
                     @ map FutureWaited [0..<length ?fsms]
                     @ map KnobCleanup [0..<length ?knobs])"
    by blast
  have 1: "snd (snd (Cluster sample_lib ?fsms ?knobs))
       = [KnobInit 0, KnobInit 1, EngineStarted 0, EngineStarted 1]"
    using tr by (simp add: up)
  have 2: "fst (c (empty_state, [])) = Inr ()" using cl by simp
  have 3: "snd (snd (c (empty_state, [])))
       = [ShutdownRequested 0, ShutdownRequested 1, FutureWaited 0, FutureWaited 1,
          KnobCleanup 0, KnobCleanup 1]"
    using cl by (simp add: up)
  show ?thesis using r 1 2 3 by blast
qed

lemma wired_0: "wired lib 0 = empty_state"
  by (simp add: wired_def connectLoobackTransports_def populatePeerStores_def)

text \<open>
  C10. \<open>Cluster\<close> on an empty list of FSMs does not fail: it calls the knobs' \<^verbatim>\<open>init\<close> on the
  empty cluster and returns an empty slice of handles with the cleanup closure; the closure
  shuts down no engine, succeeds, and calls the knobs' \<^verbatim>\<open>cleanup\<close>.
\<close>

theorem Cluster_empty:
  "Cluster lib [] knobs
   = (Inr ([], Cluster_cleanup lib [] knobs),
      foldl (\<lambda>s k. init k s) empty_state knobs,
      map KnobInit [0..<length knobs])
   \<and> Cluster_cleanup lib [] knobs (st, tr)
     = (Inr (), foldl (\<lambda>s k. cleanup k s) st knobs, tr @ map KnobCleanup [0..<length knobs])
   \<and> Shutdown lib [] tr = (Inr (), tr)"
proof (intro conjI)
  show "Cluster lib [] knobs
   = (Inr ([], Cluster_cleanup lib [] knobs),
      foldl (\<lambda>s k. init k s) empty_state knobs,
      map KnobInit [0..<length knobs])"
    by (simp add: Cluster_unfold wired_0 init_all_def)
  show "Shutdown lib [] tr = (Inr (), tr)"
    by (simp add: Shutdown_def request_shutdowns_def)
  then show "Cluster_cleanup lib [] knobs (st, tr)
     = (Inr (), foldl (\<lambda>s k. cleanup k s) st knobs, tr @ map KnobCleanup [0..<length knobs])"
    by (simp add: Cluster_cleanup_def cleanup_knobs_eq cleanup_all_def)
qed

theorem Cluster_empty_witness:
  "fst (Cluster sample_lib [] [Servers [0]]) = Inr ([], Cluster_cleanup sample_lib [] [Servers [0]])
   \<and> snd (snd (Cluster sample_lib [] [Servers [0]])) = [KnobInit 0]
   \<and> Cluster_cleanup sample_lib [] [Servers [0]] (empty_state, [KnobInit 0])
     = (Inr (), empty_state, [KnobInit 0, KnobCleanup 0])"
  using Cluster_empty [of sample_lib "[Servers [0]]" empty_state "[KnobInit 0]"]
  by (simp add: Servers_def)

end
